theory Spec2Isabelle
  imports Main "HOL-Library.Word" "HOL-Library.Multiset" "HOL-Library.Monad_Syntax"
begin

unbundle bit_operations_syntax

text \<open>
  A model of \<^verbatim>\<open>star.c\<close>, the solver of the game of shooting stars: grids as 16 bit words, the
  reference counted paths on an explicit heap, the queue, and the breadth first search. The
  definitions of the first four sections follow the functions of the source one by one and
  keep their names; the properties come after them.
\<close>

section \<open>Game grids\<close>

text \<open>
  A grid is a \<^verbatim>\<open>uint16_t\<close>: the nine low bits say which cells hold a star, cell 1 being
  bit 8 and cell 9 being bit 0. The constants are those of \<^verbatim>\<open>star.c\<close>, digit for digit.
\<close>

type_synonym Grid = "16 word"

definition empty_grid :: Grid where
  "empty_grid = 0b0000000000000000"

definition winning_grid :: Grid where
  "winning_grid = 0b0000000111101111"

definition error_grid :: Grid where
  "error_grid = 0b1111111111111111"

definition cell1 :: Grid where "cell1 = 0b0000000100000000"
definition cell2 :: Grid where "cell2 = 0b0000000010000000"
definition cell3 :: Grid where "cell3 = 0b0000000001000000"
definition cell4 :: Grid where "cell4 = 0b0000000000100000"
definition cell5 :: Grid where "cell5 = 0b0000000000010000"
definition cell6 :: Grid where "cell6 = 0b0000000000001000"
definition cell7 :: Grid where "cell7 = 0b0000000000000100"
definition cell8 :: Grid where "cell8 = 0b0000000000000010"
definition cell9 :: Grid where "cell9 = 0b0000000000000001"

datatype Outcome = Won | Lost | Continue

text \<open>
  \<^verbatim>\<open>is_star\<close> switches on an \<^verbatim>\<open>int\<close>; the \<^verbatim>\<open>bool\<close> it returns is true when the
  masked value is not zero.
\<close>

definition is_star :: "Grid \<Rightarrow> int \<Rightarrow> bool" where
  "is_star grid cell =
     (if cell = 1 then cell1 AND grid \<noteq> 0
      else if cell = 2 then cell2 AND grid \<noteq> 0
      else if cell = 3 then cell3 AND grid \<noteq> 0
      else if cell = 4 then cell4 AND grid \<noteq> 0
      else if cell = 5 then cell5 AND grid \<noteq> 0
      else if cell = 6 then cell6 AND grid \<noteq> 0
      else if cell = 7 then cell7 AND grid \<noteq> 0
      else if cell = 8 then cell8 AND grid \<noteq> 0
      else if cell = 9 then cell9 AND grid \<noteq> 0
      else False)"

definition explode :: "Grid \<Rightarrow> int \<Rightarrow> Grid" where
  "explode grid cell =
     (if \<not> is_star grid cell then grid
      else if cell = 1 then 0b0000000110110000 XOR grid
      else if cell = 2 then 0b0000000111000000 XOR grid
      else if cell = 3 then 0b0000000011011000 XOR grid
      else if cell = 4 then 0b0000000100100100 XOR grid
      else if cell = 5 then 0b0000000010111010 XOR grid
      else if cell = 6 then 0b0000000001001001 XOR grid
      else if cell = 7 then 0b0000000000110110 XOR grid
      else if cell = 8 then 0b0000000000000111 XOR grid
      else if cell = 9 then 0b0000000000011011 XOR grid
      else grid)"

definition outcome :: "Grid \<Rightarrow> Outcome" where
  "outcome grid =
     (if grid = empty_grid then Lost
      else if grid = winning_grid then Won
      else Continue)"

section \<open>Paths\<close>

text \<open>
  A \<^verbatim>\<open>Path\<close> node lives on the heap. The heap is the list of all cells ever handed out by
  \<^verbatim>\<open>malloc\<close>, indexed by address: \<open>Some node\<close> while the cell is allocated and \<open>None\<close> once it
  was freed. A pointer is \<open>None\<close> for \<^verbatim>\<open>NULL\<close> and \<open>Some a\<close> for the address \<open>a\<close>. An
  operation of the source that would dereference or free a cell that is not allocated has
  no defined behaviour in C; here it returns \<open>None\<close>.

  \<^verbatim>\<open>malloc\<close> may fail. Whether a call fails is decided outside the program: every function
  that calls \<^verbatim>\<open>malloc\<close> takes a truth value that says whether this call fails and returns
  \<^verbatim>\<open>NULL\<close>. A call that succeeds hands out an address that was never handed out before.

  The count of a node is an \<^verbatim>\<open>int\<close>, of 32 bits. Incrementing it at \<^verbatim>\<open>INT_MAX\<close> or decrementing
  it at \<^verbatim>\<open>INT_MIN\<close> overflows, which has no defined behaviour in C either and is \<open>None\<close> too.
\<close>

definition INT_MAX :: int where
  "INT_MAX = 2147483647"

definition INT_MIN :: int where
  "INT_MIN = - 2147483648"

record Path =
  references :: int
  move :: int
  rest :: "nat option"

type_synonym Path_ptr = "nat option"

type_synonym heap = "Path option list"

definition deref :: "heap \<Rightarrow> nat \<Rightarrow> Path option" where
  "deref h a = (if a < length h then h ! a else None)"

definition malloc :: "bool \<Rightarrow> heap \<Rightarrow> Path \<Rightarrow> heap \<times> Path_ptr" where
  "malloc failed h node = (if failed then (h, None) else (h @ [Some node], Some (length h)))"

definition free :: "heap \<Rightarrow> nat \<Rightarrow> heap option" where
  "free h a = (case deref h a of None \<Rightarrow> None | Some node \<Rightarrow> Some (h[a := None]))"

definition new_path :: Path_ptr where
  "new_path = None"

function drop_reference_to_path :: "heap \<Rightarrow> Path_ptr \<Rightarrow> heap option" where
  "drop_reference_to_path h None = Some h"
| "drop_reference_to_path h (Some a) =
     (case deref h a of
        None \<Rightarrow> None
      | Some node \<Rightarrow>
          if references node \<le> INT_MIN then None
          else if references node - 1 = 0
          then (case drop_reference_to_path
                       (h[a := Some (node\<lparr>references := references node - 1\<rparr>)]) (rest node) of
                  None \<Rightarrow> None
                | Some h' \<Rightarrow> free h' a)
          else Some (h[a := Some (node\<lparr>references := references node - 1\<rparr>)]))"
  by pat_completeness auto
termination
proof (relation "measure (\<lambda>(h, p). length (filter (\<lambda>c. \<exists>node. c = Some node \<and> references node = 1) h))")
  show "wf (measure (\<lambda>(h, p). length (filter (\<lambda>c. \<exists>node. c = Some node \<and> references node = 1) h)))"
    by simp
next
  fix h :: heap and a node
  assume d: "deref h a = Some node" and "\<not> references node \<le> INT_MIN"
    and r: "references node - 1 = 0"
  let ?P = "\<lambda>c. \<exists>node. c = Some node \<and> references node = 1"
  let ?v = "Some (node\<lparr>references := references node - 1\<rparr>)"
  have shrink: "length (filter Q (xs[i := v])) < length (filter Q xs)"
    if "i < length xs" and "Q (xs ! i)" and "\<not> Q v"
    for Q :: "Path option \<Rightarrow> bool" and xs i v
    using that
  proof (induction xs arbitrary: i)
    case Nil
    then show ?case by simp
  next
    case (Cons x xs)
    show ?case
    proof (cases i)
      case 0
      with Cons.prems show ?thesis by (simp add: less_Suc_eq_le)
    next
      case (Suc j)
      with Cons.prems Cons.IH [of j] show ?thesis by auto
    qed
  qed
  from d have "a < length h" and "h ! a = Some node"
    by (simp_all add: deref_def split: if_splits)
  with r shrink [of a h ?P ?v]
  show "((h[a := ?v], rest node), (h, Some a))
        \<in> measure (\<lambda>(h, p). length (filter ?P h))"
    by simp
qed

definition inc_reference_to_path :: "heap \<Rightarrow> Path_ptr \<Rightarrow> heap option" where
  "inc_reference_to_path h p =
     (case p of
        None \<Rightarrow> Some h
      | Some a \<Rightarrow>
          (case deref h a of
             None \<Rightarrow> None
           | Some node \<Rightarrow>
               if INT_MAX \<le> references node then None
               else Some (h[a := Some (node\<lparr>references := references node + 1\<rparr>)])))"

text \<open>
  When its \<^verbatim>\<open>malloc\<close> fails, \<^verbatim>\<open>add_move_to_path\<close> returns \<^verbatim>\<open>NULL\<close> and leaves the heap as it
  is.
\<close>

definition add_move_to_path ::
  "bool \<Rightarrow> heap \<Rightarrow> Path_ptr \<Rightarrow> int \<Rightarrow> (heap \<times> Path_ptr) option" where
  "add_move_to_path failed h p m =
     (case malloc failed h \<lparr>references = 1, move = m, rest = p\<rparr> of
        (h1, None) \<Rightarrow> Some (h1, None)
      | (h1, Some a) \<Rightarrow>
          (case inc_reference_to_path h1 p of
             None \<Rightarrow> None
           | Some h2 \<Rightarrow> Some (h2, Some a)))"

text \<open>
  \<^verbatim>\<open>print_path_loop\<close> walks to the end of the path and prints on the way back, so the moves
  come out oldest first. The model returns the printed moves. On a heap where the walk meets
  a dangling pointer, or runs in a cycle for ever, the result is \<open>None\<close>.
\<close>

partial_function (option) print_path_loop :: "heap \<Rightarrow> Path_ptr \<Rightarrow> int list option" where
  "print_path_loop h p =
     (case p of
        None \<Rightarrow> Some []
      | Some a \<Rightarrow>
          (case deref h a of
             None \<Rightarrow> None
           | Some node \<Rightarrow>
               Option.bind (print_path_loop h (rest node)) (\<lambda>out. Some (out @ [move node]))))"

declare print_path_loop.simps [code]


section \<open>The double ended queue\<close>

text \<open>
  The queue is the sequence of its nodes from \<^verbatim>\<open>first\<close> to \<^verbatim>\<open>last\<close>; a node is the pair of
  its \<^verbatim>\<open>path\<close> and its \<^verbatim>\<open>grid\<close>. The \<^verbatim>\<open>next\<close> and \<^verbatim>\<open>prev\<close> links are the order of the list.
  \<^verbatim>\<open>new_queue\<close> returns \<^verbatim>\<open>NULL\<close>, here \<open>None\<close>, when its \<^verbatim>\<open>malloc\<close> fails. When the \<^verbatim>\<open>malloc\<close> of
  \<^verbatim>\<open>push_front\<close> fails, the queue stays as it is and the path is not stored anywhere.
\<close>

type_synonym QueueNode = "Path_ptr \<times> Grid"

type_synonym Queue = "QueueNode list"

definition new_queue :: "bool \<Rightarrow> Queue option" where
  "new_queue failed = (if failed then None else Some [])"

definition pop_back :: "Queue \<Rightarrow> (QueueNode \<times> Queue) option" where
  "pop_back queue = (if queue = [] then None else Some (last queue, butlast queue))"

definition push_front :: "bool \<Rightarrow> Queue \<Rightarrow> Path_ptr \<Rightarrow> Grid \<Rightarrow> Queue" where
  "push_front failed queue p grid = (if failed then queue else (p, grid) # queue)"

definition free_queue_node :: "heap \<Rightarrow> QueueNode \<Rightarrow> heap option" where
  "free_queue_node h node = drop_reference_to_path h (fst node)"

function free_queue :: "heap \<Rightarrow> Queue \<Rightarrow> heap option" where
  "free_queue h queue =
     (case pop_back queue of
        None \<Rightarrow> Some h
      | Some (node, queue') \<Rightarrow>
          (case free_queue_node h node of
             None \<Rightarrow> None
           | Some h' \<Rightarrow> free_queue h' queue'))"
  by pat_completeness auto
termination
  by (relation "measure (\<lambda>(h, queue). length queue)")
    (auto simp add: pop_back_def split: if_splits)

declare free_queue.simps [simp del]


section \<open>The solution\<close>

text \<open>
  The search calls \<^verbatim>\<open>calloc\<close> and \<^verbatim>\<open>malloc\<close> many times. The calls of a run are numbered
  from 0 in the order in which they are made, and \<open>fails k\<close> says whether call \<open>k\<close> fails.
  \<open>fails\<close> is any function: the search is modelled for every way in which memory can run out.

  The state of the search: the heap of path nodes, the \<^verbatim>\<open>visited\<close> table (512 slots, all
  false after \<^verbatim>\<open>calloc\<close>), the queue \<^verbatim>\<open>to_visit\<close>, \<^verbatim>\<open>winning_path\<close>, and the number of
  allocation calls made so far. Reading or writing the table outside its 512 slots is
  undefined in C and \<open>None\<close> here.
\<close>

record bfs_state =
  mem :: heap
  visited :: "bool list"
  to_visit :: Queue
  winning_path :: Path_ptr
  allocs :: nat

definition calloc :: "bool \<Rightarrow> bool list option" where
  "calloc failed = (if failed then None else Some (replicate 512 False))"

definition read_visited :: "bool list \<Rightarrow> Grid \<Rightarrow> bool option" where
  "read_visited vs grid = (if unat grid < length vs then Some (vs ! unat grid) else None)"

definition write_visited :: "bool list \<Rightarrow> Grid \<Rightarrow> bool list option" where
  "write_visited vs grid =
     (if unat grid < length vs then Some (vs[unat grid := True]) else None)"

text \<open>
  The body of the \<^verbatim>\<open>for\<close> loop, for the cell \<open>i\<close>. The result of \<^verbatim>\<open>add_move_to_path\<close> is
  passed on to \<^verbatim>\<open>push_front\<close> as it is, \<^verbatim>\<open>NULL\<close> or not.
\<close>

definition visit_cell ::
  "(nat \<Rightarrow> bool) \<Rightarrow> bool list \<Rightarrow> QueueNode \<Rightarrow> heap \<times> Queue \<times> nat \<Rightarrow> int \<Rightarrow>
   (heap \<times> Queue \<times> nat) option" where
  "visit_cell fails vs node hqn i =
     (case hqn of
        (h, queue, n) \<Rightarrow>
          if is_star (snd node) i then
            (case read_visited vs (explode (snd node) i) of
               None \<Rightarrow> None
             | Some was_visited \<Rightarrow>
                 if \<not> was_visited then
                   (case add_move_to_path (fails n) h (fst node) i of
                      None \<Rightarrow> None
                    | Some (h', p) \<Rightarrow>
                        Some (h', push_front (fails (n + 1)) queue p (explode (snd node) i),
                              n + 2))
                 else Some (h, queue, n))
          else Some (h, queue, n))"

text \<open>The loop \<^verbatim>\<open>for (int i = 1; i <= 9; i++)\<close>, entered at \<open>i\<close>.\<close>

function for_cells ::
  "(nat \<Rightarrow> bool) \<Rightarrow> int \<Rightarrow> bool list \<Rightarrow> QueueNode \<Rightarrow> heap \<times> Queue \<times> nat \<Rightarrow>
   (heap \<times> Queue \<times> nat) option" where
  "for_cells fails i vs node hqn =
     (if i \<le> 9 then
        (case visit_cell fails vs node hqn i of
           None \<Rightarrow> None
         | Some hqn' \<Rightarrow> for_cells fails (i + 1) vs node hqn')
      else Some hqn)"
  by pat_completeness auto
termination
  by (relation "measure (\<lambda>(fails, i, vs, node, hqn). nat (10 - i))") auto

declare for_cells.simps [simp del]

text \<open>
  One pass through the body of the \<^verbatim>\<open>while\<close> loop, for the node that \<^verbatim>\<open>pop_back\<close> returned
  (the state holds the queue without it).
\<close>

definition visit_node :: "(nat \<Rightarrow> bool) \<Rightarrow> bfs_state \<Rightarrow> QueueNode \<Rightarrow> bfs_state option" where
  "visit_node fails s node =
     do {
       vs \<leftarrow> write_visited (visited s) (snd node);
       s1 \<leftarrow>
         (case outcome (snd node) of
            Won \<Rightarrow>
              do {
                h \<leftarrow> inc_reference_to_path (mem s) (fst node);
                Some (s\<lparr>mem := h, visited := vs, winning_path := fst node\<rparr>)
              }
          | Continue \<Rightarrow>
              do {
                hqn \<leftarrow> for_cells fails 1 vs node (mem s, to_visit s, allocs s);
                Some (s\<lparr>mem := fst hqn, visited := vs, to_visit := fst (snd hqn),
                        allocs := snd (snd hqn)\<rparr>)
              }
          | Lost \<Rightarrow> Some (s\<lparr>visited := vs\<rparr>));
       h' \<leftarrow> free_queue_node (mem s1) node;
       Some (s1\<lparr>mem := h'\<rparr>)
     }"

text \<open>
  The \<^verbatim>\<open>while\<close> loop. It ends when the queue is empty, or after the pass that left a
  \<^verbatim>\<open>winning_path\<close> that is not \<^verbatim>\<open>NULL\<close>. A run that never ends is \<open>None\<close>.
\<close>

partial_function (option) search_loop :: "(nat \<Rightarrow> bool) \<Rightarrow> bfs_state \<Rightarrow> bfs_state option" where
  "search_loop fails s =
     (case pop_back (to_visit s) of
        None \<Rightarrow> Some s
      | Some (node, queue) \<Rightarrow>
          Option.bind (visit_node fails (s\<lparr>to_visit := queue\<rparr>) node)
            (\<lambda>s'. if winning_path s' \<noteq> None then Some s' else search_loop fails s'))"

declare search_loop.simps [code]

text \<open>
  The state in which the loop is entered, after the table (call 0) and the queue (call 1)
  were allocated: an empty heap of paths, nothing visited, and the initial grid with the empty
  path pushed to the queue (call 2).
\<close>

definition initial_state :: "(nat \<Rightarrow> bool) \<Rightarrow> Grid \<Rightarrow> bfs_state" where
  "initial_state fails initial =
     \<lparr>mem = [], visited = replicate 512 False,
      to_visit = push_front (fails 2) [] new_path initial, winning_path = None, allocs = 3\<rparr>"

text \<open>
  \<^verbatim>\<open>shortest_winning_path\<close> returns \<^verbatim>\<open>NULL\<close> at once when the table or the queue could not be
  allocated. Otherwise it returns the pointer \<^verbatim>\<open>winning_path\<close>; the model returns the heap
  with it, in which the caller reads the path.
\<close>

definition shortest_winning_path :: "(nat \<Rightarrow> bool) \<Rightarrow> Grid \<Rightarrow> (Path_ptr \<times> heap) option" where
  "shortest_winning_path fails initial =
     (if calloc (fails 0) = None \<or> new_queue (fails 1) = None then Some (None, [])
      else
        do {
          s \<leftarrow> search_loop fails (initial_state fails initial);
          h \<leftarrow> free_queue (mem s) (to_visit s);
          Some (winning_path s, h)
        })"

section \<open>Notions used in the statements\<close>

text \<open>The cells whose content differs between a grid and the grid after exploding a cell.\<close>

definition toggled_cells :: "Grid \<Rightarrow> int \<Rightarrow> int list" where
  "toggled_cells grid cell =
     filter (\<lambda>k. is_star (explode grid cell) k \<noteq> is_star grid k) [1, 2, 3, 4, 5, 6, 7, 8, 9]"

text \<open>The cells of a grid that hold a star.\<close>

definition stars :: "Grid \<Rightarrow> int list" where
  "stars grid = filter (is_star grid) [1, 2, 3, 4, 5, 6, 7, 8, 9]"

text \<open>The grids that the first \<open>k\<close> passes of the \<^verbatim>\<open>while\<close> loop take from the queue, in order.\<close>

fun dequeued :: "(nat \<Rightarrow> bool) \<Rightarrow> nat \<Rightarrow> bfs_state \<Rightarrow> Grid list" where
  "dequeued fails 0 s = []"
| "dequeued fails (Suc k) s =
     (case pop_back (to_visit s) of
        None \<Rightarrow> []
      | Some (node, queue) \<Rightarrow>
          snd node #
          (case visit_node fails (s\<lparr>to_visit := queue\<rparr>) node of
             None \<Rightarrow> []
           | Some s' \<Rightarrow> if winning_path s' \<noteq> None then [] else dequeued fails k s'))"

text \<open>No allocation fails.\<close>

definition no_failure :: "nat \<Rightarrow> bool" where
  "no_failure k = False"

text \<open>Call \<open>j\<close> of the allocator fails, and no other.\<close>

definition fails_at :: "nat \<Rightarrow> nat \<Rightarrow> bool" where
  "fails_at j k \<longleftrightarrow> k = j"

text \<open>Replaying moves, oldest first, as successive calls of \<^verbatim>\<open>explode\<close>.\<close>

fun replay :: "Grid \<Rightarrow> int list \<Rightarrow> Grid" where
  "replay grid [] = grid"
| "replay grid (m # ms) = replay (explode grid m) ms"

subsection \<open>Reference counts\<close>

text \<open>
  The nodes that refer to the node at \<open>b\<close> through their \<^verbatim>\<open>rest\<close>. A node whose count is 0
  is about to be freed and its reference is already given up.
\<close>

definition referrers :: "heap \<Rightarrow> nat \<Rightarrow> nat set" where
  "referrers h b = {c. \<exists>node. deref h c = Some node \<and> references node \<noteq> 0 \<and> rest node = Some b}"

text \<open>
  The counts of a heap are exact for the multiset \<open>R\<close> of pointers held outside the heap:
  the count of every node is the number of pointers of \<open>R\<close> to it plus the number of nodes
  that refer to it, and no pointer in use dangles. A \<^verbatim>\<open>rest\<close> always points to an older node.
\<close>

definition counted :: "heap \<Rightarrow> Path_ptr multiset \<Rightarrow> bool" where
  "counted h R \<longleftrightarrow>
     (\<forall>a node. deref h a = Some node \<longrightarrow>
        references node = int (count R (Some a)) + int (card (referrers h a)))
   \<and> (\<forall>a. Some a \<in># R \<longrightarrow> deref h a \<noteq> None)
   \<and> (\<forall>b node c. deref h b = Some node \<longrightarrow> references node \<noteq> 0 \<longrightarrow> rest node = Some c \<longrightarrow>
        deref h c \<noteq> None \<and> c < b)"

definition no_zombie :: "heap \<Rightarrow> bool" where
  "no_zombie h \<longleftrightarrow> (\<forall>a node. deref h a = Some node \<longrightarrow> references node \<noteq> 0)"

definition heap_ok :: "heap \<Rightarrow> Path_ptr multiset \<Rightarrow> bool" where
  "heap_ok h R \<longleftrightarrow> counted h R \<and> no_zombie h"

text \<open>
  What dropping a reference may do to a heap: a node stays as it is, or its count was 1 and
  it is freed, or its count goes down by one and stays above 0.
\<close>

definition frame :: "heap \<Rightarrow> heap \<Rightarrow> bool" where
  "frame h h' \<longleftrightarrow> length h' = length h \<and>
     (\<forall>b. case deref h b of
            None \<Rightarrow> deref h' b = None
          | Some node \<Rightarrow>
              deref h' b = Some node
              \<or> (references node = 1 \<and> deref h' b = None)
              \<or> (references node \<noteq> 1 \<and> references node \<noteq> 0
                  \<and> deref h' b = Some (node\<lparr>references := references node - 1\<rparr>)))"

text \<open>Heaps that keep every node of \<open>h\<close>, up to its count.\<close>

definition keeps :: "heap \<Rightarrow> heap \<Rightarrow> bool" where
  "keeps h h' \<longleftrightarrow> (\<forall>a node. deref h a = Some node \<longrightarrow>
      (\<exists>node'. deref h' a = Some node' \<and> move node' = move node \<and> rest node' = rest node))"

text \<open>The moves of a path in the order of its links, the most recent move first.\<close>

primrec path_is :: "heap \<Rightarrow> Path_ptr \<Rightarrow> int list \<Rightarrow> bool" where
  "path_is h p [] \<longleftrightarrow> p = None"
| "path_is h p (m # ms) \<longleftrightarrow>
     (\<exists>a node. p = Some a \<and> deref h a = Some node \<and> move node = m \<and> path_is h (rest node) ms)"

subsection \<open>Users of paths\<close>









subsection \<open>The search\<close>

text \<open>
  \<open>reaches initial ms g\<close>: the moves \<open>ms\<close>, the most recent first as in a path, lead from the
  initial grid to \<open>g\<close>, each move exploding a star of a grid that is neither lost nor won.
\<close>

primrec reaches :: "Grid \<Rightarrow> int list \<Rightarrow> Grid \<Rightarrow> bool" where
  "reaches initial [] g \<longleftrightarrow> g = initial"
| "reaches initial (m # ms) g \<longleftrightarrow>
     (\<exists>g'. reaches initial ms g' \<and> outcome g' = Continue \<and> is_star g' m \<and> g = explode g' m)"

text \<open>The grid has its slot of the visited table set.\<close>

definition seen :: "bool list \<Rightarrow> Grid \<Rightarrow> bool" where
  "seen vs g \<longleftrightarrow> unat g < length vs \<and> vs ! unat g"

text \<open>
  The order of the queue, on the pairs of the length of a node's path and its grid. The nodes
  at the back have paths of one length \<open>L\<close>, the nodes in front of them of length \<open>L + 1\<close>.
  Every grid that fewer than \<open>L\<close> moves reach was visited, every grid that \<open>L\<close> moves reach
  was visited or waits at the back, every grid one move away from a visited grid was
  visited or waits in the queue, and the winning grid was not visited.
\<close>

definition levels :: "Grid \<Rightarrow> bool list \<Rightarrow> (nat \<times> Grid) list \<Rightarrow> bool" where
  "levels initial vs dq \<longleftrightarrow>
     dq = [] \<or>
     (\<exists>L fs bs.
        dq = fs @ bs \<and> bs \<noteq> []
        \<and> (\<forall>e\<in>set fs. fst e = Suc L) \<and> (\<forall>e\<in>set bs. fst e = L)
        \<and> (\<forall>ms g. reaches initial ms g \<longrightarrow> length ms < L \<longrightarrow> seen vs g)
        \<and> (\<forall>ms g. reaches initial ms g \<longrightarrow> length ms = L \<longrightarrow> seen vs g \<or> g \<in> snd ` set bs)
        \<and> (\<forall>v c. seen vs v \<longrightarrow> outcome v = Continue \<longrightarrow> is_star v c \<longrightarrow>
              seen vs (explode v c) \<or> explode v c \<in> snd ` set dq)
        \<and> \<not> seen vs winning_grid
        \<and> (L = 0 \<longrightarrow> dq = [(0, initial)]))"

text \<open>A node of the queue holds the path of moves \<open>ms\<close> that lead to its grid.\<close>

definition entry_of :: "heap \<Rightarrow> Grid \<Rightarrow> QueueNode \<Rightarrow> int list \<Rightarrow> bool" where
  "entry_of h initial node ms \<longleftrightarrow>
     path_is h (fst node) ms \<and> reaches initial ms (snd node) \<and> snd node < 512"

definition depths :: "int list list \<Rightarrow> Queue \<Rightarrow> (nat \<times> Grid) list" where
  "depths mss q = zip (map length mss) (map snd q)"

text \<open>
  Every node waiting in the queue has a grid below 512, and its path, if it is not \<^verbatim>\<open>NULL\<close>,
  has no other reference than the one of the node.
\<close>

definition queue_ok :: "heap \<Rightarrow> Queue \<Rightarrow> bool" where
  "queue_ok h q \<longleftrightarrow>
     (\<forall>node\<in>set q. snd node < 512
        \<and> (\<forall>a n. fst node = Some a \<longrightarrow> deref h a = Some n \<longrightarrow> references n = 1))"

text \<open>
  What holds whenever the \<^verbatim>\<open>while\<close> loop tests its condition. The counts are exact for the
  paths of the queue and the paths \<open>Lk\<close> that were lost: a path whose queue node could not be
  allocated is referenced by nobody. What is known of the moves of the paths and of the order
  of the queue holds as long as no allocation fails.
\<close>

definition search_inv :: "(nat \<Rightarrow> bool) \<Rightarrow> Grid \<Rightarrow> bfs_state \<Rightarrow> bool" where
  "search_inv fails initial s \<longleftrightarrow>
     length (visited s) = 512 \<and> winning_path s = None
     \<and> (\<exists>Lk. heap_ok (mem s) (mset (map fst (to_visit s)) + Lk))
     \<and> queue_ok (mem s) (to_visit s)
     \<and> ((\<forall>k. \<not> fails k) \<longrightarrow>
          (\<exists>mss. list_all2 (entry_of (mem s) initial) (to_visit s) mss
            \<and> levels initial (visited s) (depths mss (to_visit s))))"

text \<open>What holds when the loop has ended.\<close>

definition search_post :: "(nat \<Rightarrow> bool) \<Rightarrow> Grid \<Rightarrow> bfs_state \<Rightarrow> bool" where
  "search_post fails initial s \<longleftrightarrow>
     (\<exists>Lk. heap_ok (mem s) (add_mset (winning_path s) (mset (map fst (to_visit s)) + Lk)))
     \<and> ((\<forall>k. \<not> fails k) \<longrightarrow>
          (\<forall>a. winning_path s = Some a \<longrightarrow>
            (\<exists>ms. path_is (mem s) (Some a) ms \<and> reaches initial ms winning_grid
                \<and> (\<forall>ms'. reaches initial ms' winning_grid \<longrightarrow> length ms \<le> length ms'))))"

text \<open>
  The measure of the loop: the number of slots not yet set, then the number of nodes at the
  back of the queue whose grid was visited already.
\<close>

definition unvisited :: "bfs_state \<Rightarrow> nat" where
  "unvisited s = length (filter (\<lambda>b. \<not> b) (visited s))"

definition stale :: "bfs_state \<Rightarrow> nat" where
  "stale s = length (takeWhile (\<lambda>node. seen (visited s) (snd node)) (rev (to_visit s)))"

section \<open>Properties of the grid operations\<close>

lemmas cell_defs =
  cell1_def cell2_def cell3_def cell4_def cell5_def cell6_def cell7_def cell8_def cell9_def

text \<open>Cell \<open>c\<close> is bit \<open>9 - c\<close> of the grid.\<close>

lemma is_star_bit: "is_star g c = (1 \<le> c \<and> c \<le> 9 \<and> bit g (nat (9 - c)))"
  unfolding is_star_def cell_defs
  by (auto simp add: bit_iff_and_push_bit_not_eq_0 and.commute)

lemma cell_cases:
  "1 \<le> c \<Longrightarrow> c \<le> 9 \<Longrightarrow>
   c = 1 \<or> c = 2 \<or> c = 3 \<or> c = 4 \<or> c = 5 \<or> c = 6 \<or> c = 7 \<or> c = 8 \<or> c = (9::int)"
  by arith

lemma grid_less_512_iff: "(g::Grid) < 512 \<longleftrightarrow> g AND mask 9 = g"
  using mask_eq_iff_w2p [of 9 g] by (simp add: word_size)

lemma xor_less_512: "(g::Grid) < 512 \<Longrightarrow> m < 512 \<Longrightarrow> m XOR g < 512"
  unfolding grid_less_512_iff by (simp add: bit.conj_xor_distrib2)

lemma explode_less_512: "g < 512 \<Longrightarrow> explode g c < 512"
  unfolding explode_def by (simp add: xor_less_512)

lemma explode_not_star: "\<not> is_star g c \<Longrightarrow> explode g c = g"
  by (simp add: explode_def)

lemma is_star_range: "is_star g c \<Longrightarrow> 1 \<le> c \<and> c \<le> 9"
  by (simp add: is_star_bit)

lemma not_star_after_explode: "is_star g c \<Longrightarrow> \<not> is_star (explode g c) c"
proof -
  assume s: "is_star g c"
  then have "1 \<le> c" "c \<le> 9" by (simp_all add: is_star_bit)
  from cell_cases [OF this] s show ?thesis
    by (auto simp add: explode_def is_star_bit bit_xor_iff)
qed

subsection \<open>C3: the cells an explosion toggles\<close>

text \<open>
  C3 as stated (corner cells toggle 3 positions, edge cells 5) fails: exploding the corner
  cell 1 of the grid that holds a star in cell 1 only changes four cells, 1, 2, 4 and 5.
\<close>

theorem explode_corner_toggles_four:
  "is_star cell1 1 \<and> toggled_cells cell1 1 = [1, 2, 4, 5] \<and> length (toggled_cells cell1 1) \<noteq> 3"
  by (simp add: toggled_cells_def explode_def is_star_def cell_defs)

text \<open>
  C3, amended: for every grid and every cell \<open>c\<close> in 1-9 that holds a star, \<open>explode\<close>
  toggles exactly a fixed set of cells that contains \<open>c\<close>: a corner cell toggles 4 cells
  (itself and its three in-grid neighbours), an edge cell toggles 3 cells (itself and its two
  neighbours on the same border), and the centre toggles the cross of 5 cells.
\<close>

theorem explode_toggles:
  "1 \<le> c \<Longrightarrow> c \<le> 9 \<Longrightarrow> is_star g c \<Longrightarrow>
   toggled_cells g c =
     (if c = 1 then [1, 2, 4, 5] else if c = 3 then [2, 3, 5, 6]
      else if c = 7 then [4, 5, 7, 8] else if c = 9 then [5, 6, 8, 9]
      else if c = 2 then [1, 2, 3] else if c = 4 then [1, 4, 7]
      else if c = 6 then [3, 6, 9] else if c = 8 then [7, 8, 9]
      else [2, 4, 5, 6, 8])"
  apply (drule (1) cell_cases)
  apply (elim disjE)
          apply (simp_all add: toggled_cells_def explode_def is_star_bit bit_xor_iff)
  done

theorem explode_toggles_witness:
  "1 \<le> (2::int) \<and> (2::int) \<le> 9 \<and> is_star winning_grid 2 \<and> toggled_cells winning_grid 2 = [1, 2, 3]"
proof -
  have s: "is_star winning_grid 2"
    by (simp add: is_star_def winning_grid_def cell_defs)
  from explode_toggles [of 2 winning_grid, OF _ _ s] s show ?thesis by simp
qed

subsection \<open>C4: the winning grid\<close>

text \<open>
  C4 as stated (exactly cells 2, 3, 5, 6, 7 and 8 are stars) fails: in the constant of the
  source cell 1 is a star and cell 5 is a hole.
\<close>

theorem winning_grid_not_235678:
  "stars winning_grid \<noteq> [2, 3, 5, 6, 7, 8] \<and> is_star winning_grid 1 \<and> \<not> is_star winning_grid 5"
  by (simp add: stars_def is_star_def winning_grid_def cell_defs)

text \<open>
  C4, amended: the winning grid is the pattern in which exactly cells 1, 2, 3, 4, 6, 7, 8 and 9
  are stars and cell 5, the centre, is the only hole, with no bit set outside the nine cells.
\<close>

theorem winning_grid_stars:
  "stars winning_grid = [1, 2, 3, 4, 6, 7, 8, 9] \<and> winning_grid < 512"
  by (simp add: stars_def is_star_def winning_grid_def cell_defs)

subsection \<open>C8: the 512 grids are closed under explode\<close>

text \<open>
  C8: for every grid below 512 and every cell in 1-9, \<open>explode\<close> gives a grid below 512 again:
  it is not the error sentinel, \<open>outcome\<close> classifies it, and as an index it is within the
  512 slots of the visited table.
\<close>

theorem explode_closed:
  "g < 512 \<Longrightarrow> 1 \<le> c \<Longrightarrow> c \<le> 9 \<Longrightarrow>
   explode g c < 512 \<and> explode g c \<noteq> error_grid \<and> unat (explode g c) < 512
   \<and> outcome (explode g c) \<in> {Won, Lost, Continue}"
proof -
  assume "g < 512"
  then have l: "explode g c < 512" by (rule explode_less_512)
  then have "explode g c \<noteq> error_grid" by (auto simp add: error_grid_def)
  moreover from l have "unat (explode g c) < 512" by (simp add: word_less_nat_alt)
  moreover have "outcome (explode g c) \<in> {Won, Lost, Continue}"
    by (cases "outcome (explode g c)") simp_all
  ultimately show ?thesis using l by simp
qed

theorem explode_closed_witness:
  "(256::Grid) < 512 \<and> 1 \<le> (1::int) \<and> (1::int) \<le> 9 \<and> explode 256 1 = 176
   \<and> explode 256 1 < 512 \<and> explode 256 1 \<noteq> error_grid \<and> unat (explode 256 1) < 512"
proof -
  have e: "explode 256 1 = 176" by (simp add: explode_def is_star_def cell_defs)
  from explode_closed [of 256 1] e show ?thesis by simp
qed

subsection \<open>C9: total operations with safe defaults\<close>

text \<open>
  C9: \<open>is_star\<close> is false for every cell outside 1-9, and \<open>explode\<close> returns the grid
  unchanged whenever the cell is not a star, in particular for every cell outside 1-9. Both
  are total functions whose results are a truth value and a grid: no error is signalled.
\<close>

theorem is_star_explode_defaults:
  "(\<not> (1 \<le> cell \<and> cell \<le> 9) \<longrightarrow> is_star grid cell = False \<and> explode grid cell = grid)
   \<and> (\<not> is_star grid cell \<longrightarrow> explode grid cell = grid)"
  by (auto simp add: explode_def is_star_bit)

theorem is_star_explode_defaults_witness:
  "\<not> (1 \<le> (10::int) \<and> (10::int) \<le> 9) \<and> is_star 511 10 = False \<and> explode 511 10 = 511
   \<and> \<not> is_star 255 1 \<and> explode 255 1 = 255"
proof -
  have s: "\<not> is_star 255 1" by (simp add: is_star_def cell_defs)
  from is_star_explode_defaults [where grid = 511 and cell = 10]
    is_star_explode_defaults [where grid = 255 and cell = 1] s
  show ?thesis by simp
qed

subsection \<open>C10: exploding the same cell twice\<close>

text \<open>
  C10: for every grid and every integer cell, exploding the cell a second time changes
  nothing: the mask of every cell contains the cell itself, so after an explosion the cell
  is a hole.
\<close>

theorem explode_idem: "explode (explode g c) c = explode g c"
proof (cases "is_star g c")
  case False
  then show ?thesis by (simp add: explode_def)
next
  case True
  then have "\<not> is_star (explode g c) c" by (rule not_star_after_explode)
  then show ?thesis by (rule explode_not_star)
qed

section \<open>Properties of the path operations\<close>

lemma counted_refs:
  "counted h R \<Longrightarrow> deref h a = Some node \<Longrightarrow>
   references node = int (count R (Some a)) + int (card (referrers h a))"
  by (simp add: counted_def)

lemma counted_root: "counted h R \<Longrightarrow> Some a \<in># R \<Longrightarrow> \<exists>node. deref h a = Some node"
  by (auto simp add: counted_def)

lemma counted_rest:
  "counted h R \<Longrightarrow> deref h b = Some node \<Longrightarrow> references node \<noteq> 0 \<Longrightarrow> rest node = Some c \<Longrightarrow>
   (\<exists>node'. deref h c = Some node') \<and> c < b"
  unfolding counted_def by blast

lemma deref_update: "deref (h[a := v]) b = (if b = a \<and> a < length h then v else deref h b)"
  by (simp add: deref_def)

lemma deref_less: "deref h a = Some node \<Longrightarrow> a < length h"
  by (simp add: deref_def split: if_splits)

lemma finite_referrers: "finite (referrers h b)"
proof -
  have "referrers h b \<subseteq> {..<length h}"
    by (auto simp add: referrers_def dest: deref_less)
  then show ?thesis by (rule finite_subset) simp
qed

lemma referrers_update_same:
  assumes "deref h a = Some node" "rest node' = rest node" "(references node' \<noteq> 0) = (references node \<noteq> 0)"
  shows "referrers (h[a := Some node']) b = referrers h b"
  using assms by (auto simp add: referrers_def deref_update dest: deref_less)

lemma referrers_update_dead:
  assumes "references node' = 0"
  shows "referrers (h[a := Some node']) b = referrers h b - {a}"
  using assms by (auto simp add: referrers_def deref_update dest: deref_less)

lemma in_referrers: "deref h a = Some node \<Longrightarrow> references node \<noteq> 0 \<Longrightarrow> rest node = Some b \<Longrightarrow> a \<in> referrers h b"
  by (auto simp add: referrers_def)

lemma card_referrers_remove:
  "a \<in> referrers h b \<Longrightarrow> int (card (referrers h b - {a})) = int (card (referrers h b)) - 1"
proof -
  assume a: "a \<in> referrers h b"
  with finite_referrers [of h b] have "0 < card (referrers h b)"
    by (auto simp add: card_gt_0_iff)
  with a finite_referrers [of h b] show ?thesis
    by (simp add: card_Diff_singleton of_nat_diff)
qed

text \<open>Dropping a reference that is counted keeps the counts exact. While the nodes of a
  path are freed one after the other, the node whose count has just reached 0 is still
  allocated: this is why \<open>counted\<close> leaves such nodes out.\<close>

lemma drop_counted:
  "counted h (add_mset p R) \<Longrightarrow>
   \<exists>h'. drop_reference_to_path h p = Some h' \<and> counted h' R \<and> frame h h'"
proof (induction h p arbitrary: R rule: drop_reference_to_path.induct)
  case (1 h)
  have "frame h h" by (auto simp add: frame_def split: option.splits)
  moreover from 1 have "counted h R" by (simp add: counted_def)
  ultimately show ?case by simp
next
  case (2 h a)
  let ?R = "add_mset (Some a) R"
  from "2.prems" obtain node where d: "deref h a = Some node"
    by (auto simp add: counted_def)
  from d have al: "a < length h" by (rule deref_less)
  from "2.prems" d have refs: "references node = int (count R (Some a)) + 1 + int (card (referrers h a))"
    by (simp add: counted_def)
  from refs have above: "\<not> references node \<le> INT_MIN" by (simp add: INT_MIN_def)
  let ?node' = "node\<lparr>references := references node - 1\<rparr>"
  let ?h1 = "h[a := Some ?node']"
  show ?case
  proof (cases "references node - 1 = 0")
    case False
    then have nz: "references node \<noteq> 1" "references node \<noteq> 0" using refs by auto
    have same: "\<And>b. referrers ?h1 b = referrers h b"
      using d nz refs by (intro referrers_update_same) auto
    have "counted ?h1 R"
      unfolding counted_def
    proof (intro conjI allI impI)
      fix b nb assume "deref ?h1 b = Some nb"
      then show "references nb = int (count R (Some b)) + int (card (referrers ?h1 b))"
        using "2.prems" d refs al unfolding same
        by (auto simp add: counted_def deref_update split: if_splits)
    next
      fix b assume "Some b \<in># R"
      then show "deref ?h1 b \<noteq> None"
        using "2.prems" al by (auto simp add: counted_def deref_update)
    next
      fix b nb c assume "deref ?h1 b = Some nb" "references nb \<noteq> 0" "rest nb = Some c"
      then show "deref ?h1 c \<noteq> None" "c < b"
        using "2.prems" d nz al
        by (auto simp add: counted_def deref_update split: if_splits)
    qed
    moreover have "frame h ?h1"
      using d nz al by (auto simp add: frame_def deref_update split: option.splits)
    ultimately show ?thesis using d False refs by (simp add: INT_MIN_def)
  next
    case True
    then have r1: "references node = 1" by simp
    with refs have noroot: "count R (Some a) = 0" and noref: "card (referrers h a) = 0" by auto
    from noref have refempty: "referrers h a = {}" using finite_referrers by auto
    have dead: "\<And>b. referrers ?h1 b = referrers h b - {a}"
      using r1 by (intro referrers_update_dead) simp
    have self: "rest node \<noteq> Some a"
      using counted_rest [OF "2.prems" d, of a] r1 by auto
    have c1: "counted ?h1 (add_mset (rest node) R)"
      unfolding counted_def
    proof (intro conjI allI impI)
      fix b nb assume db: "deref ?h1 b = Some nb"
      show "references nb = int (count (add_mset (rest node) R) (Some b)) + int (card (referrers ?h1 b))"
      proof (cases "b = a")
        case True
        with db al have "references nb = 0" using r1 by (auto simp add: deref_update)
        moreover have "referrers ?h1 a = {}" using refempty dead by simp
        ultimately show ?thesis using True noroot self by simp
      next
        case False
        with db have dhb: "deref h b = Some nb" by (simp add: deref_update)
        with "2.prems" False have e: "references nb = int (count R (Some b)) + int (card (referrers h b))"
          by (simp add: counted_def)
        show ?thesis
        proof (cases "rest node = Some b")
          case True
          then have "a \<in> referrers h b" using d r1 by (intro in_referrers) auto
          then show ?thesis using e True dead card_referrers_remove by simp
        next
          case False
          then have "a \<notin> referrers h b" using d by (auto simp add: referrers_def)
          then show ?thesis using e False dead by simp
        qed
      qed
    next
      fix b assume "Some b \<in># add_mset (rest node) R"
      then show "deref ?h1 b \<noteq> None"
        using "2.prems" d r1 al by (auto simp add: counted_def deref_update)
    next
      fix b nb c assume "deref ?h1 b = Some nb" "references nb \<noteq> 0" "rest nb = Some c"
      then show "deref ?h1 c \<noteq> None" "c < b"
        using "2.prems" d r1 al
        by (auto simp add: counted_def deref_update split: if_splits)
    qed
    from "2.IH" [OF d above True c1] obtain h2 where
      h2: "drop_reference_to_path ?h1 (rest node) = Some h2" "counted h2 R" "frame ?h1 h2"
      by blast
    from h2(3) al r1 have a2: "deref h2 a = Some ?node'" and len2: "length h2 = length h"
      by (auto simp add: frame_def deref_update split: option.splits dest!: spec [of _ a])
    let ?h3 = "h2[a := None]"
    have fr: "free h2 a = Some ?h3" using a2 by (simp add: free_def)
    have gone: "\<And>b. referrers ?h3 b = referrers h2 b"
      using a2 r1 by (auto simp add: referrers_def deref_update dest: deref_less)
    have a_unref: "referrers h2 a = {}"
    proof -
      from counted_refs [OF h2(2) a2] r1 have "card (referrers h2 a) = 0" by simp
      then show ?thesis using finite_referrers [of h2 a] by simp
    qed
    have c3: "counted ?h3 R"
      unfolding counted_def
    proof (intro conjI allI impI)
      fix b nb assume "deref ?h3 b = Some nb"
      then show "references nb = int (count R (Some b)) + int (card (referrers ?h3 b))"
        using h2(2) unfolding gone by (auto simp add: counted_def deref_update split: if_splits)
    next
      fix b assume "Some b \<in># R"
      then show "deref ?h3 b \<noteq> None"
        using h2(2) noroot by (auto simp add: counted_def deref_update count_eq_zero_iff)
    next
      fix b nb c assume b: "deref ?h3 b = Some nb" "references nb \<noteq> 0" "rest nb = Some c"
      then have b2: "deref h2 b = Some nb" by (auto simp add: deref_update split: if_splits)
      with b h2(2) have "deref h2 c \<noteq> None" "c < b" by (auto simp add: counted_def)
      moreover have "c \<noteq> a" using b2 b a_unref by (auto simp add: referrers_def)
      ultimately show "deref ?h3 c \<noteq> None" "c < b" by (auto simp add: deref_update)
    qed
    have "frame h ?h3"
      unfolding frame_def
    proof (intro conjI allI)
      show "length ?h3 = length h" using len2 by simp
    next
      fix b
      show "case deref h b of None \<Rightarrow> deref ?h3 b = None
          | Some node \<Rightarrow> deref ?h3 b = Some node \<or> (references node = 1 \<and> deref ?h3 b = None)
              \<or> (references node \<noteq> 1 \<and> references node \<noteq> 0
                  \<and> deref ?h3 b = Some (node\<lparr>references := references node - 1\<rparr>))"
      proof (cases "b = a")
        case True
        then show ?thesis using d r1 al len2 by (simp add: deref_update)
      next
        case False
        then show ?thesis using h2(3)
          by (auto simp add: frame_def deref_update split: option.splits dest!: spec [of _ b])
      qed
    qed
    with c3 fr h2(1) d True show ?thesis by (simp add: INT_MIN_def)
  qed
qed

lemma frame_no_zombie: "frame h h' \<Longrightarrow> no_zombie h \<Longrightarrow> no_zombie h'"
  unfolding no_zombie_def frame_def
proof (intro allI impI)
  fix a node
  assume f: "length h' = length h \<and> (\<forall>b. case deref h b of None \<Rightarrow> deref h' b = None
          | Some node \<Rightarrow> deref h' b = Some node \<or> (references node = 1 \<and> deref h' b = None)
              \<or> (references node \<noteq> 1 \<and> references node \<noteq> 0
                  \<and> deref h' b = Some (node\<lparr>references := references node - 1\<rparr>)))"
    and z: "\<forall>a node. deref h a = Some node \<longrightarrow> references node \<noteq> 0"
    and d: "deref h' a = Some node"
  from f have "case deref h a of None \<Rightarrow> deref h' a = None
          | Some node \<Rightarrow> deref h' a = Some node \<or> (references node = 1 \<and> deref h' a = None)
              \<or> (references node \<noteq> 1 \<and> references node \<noteq> 0
                  \<and> deref h' a = Some (node\<lparr>references := references node - 1\<rparr>))" by blast
  with d z show "references node \<noteq> 0"
    by (auto split: option.splits)
qed

lemma drop_ok:
  assumes "heap_ok h (add_mset p R)"
  shows "\<exists>h'. drop_reference_to_path h p = Some h' \<and> heap_ok h' R \<and> frame h h'"
  using assms drop_counted [of h p R] frame_no_zombie by (auto simp add: heap_ok_def)

text \<open>What a frame keeps of a node.\<close>

lemma frame_kept:
  assumes "frame h h'" "deref h' b = Some node'"
  shows "\<exists>node. deref h b = Some node \<and> move node' = move node \<and> rest node' = rest node
     \<and> (node' = node \<or> (references node \<noteq> 1 \<and> references node \<noteq> 0
                  \<and> node' = node\<lparr>references := references node - 1\<rparr>))"
proof -
  from assms(1) have "case deref h b of None \<Rightarrow> deref h' b = None
          | Some node \<Rightarrow> deref h' b = Some node \<or> (references node = 1 \<and> deref h' b = None)
              \<or> (references node \<noteq> 1 \<and> references node \<noteq> 0
                  \<and> deref h' b = Some (node\<lparr>references := references node - 1\<rparr>))"
    unfolding frame_def by blast
  with assms(2) show ?thesis by (auto split: option.splits)
qed

text \<open>The moves of a path that is still referenced stay as they are.\<close>

lemma path_is_frame:
  assumes "frame h h'" "counted h' R" "no_zombie h'"
  shows "path_is h p ms \<Longrightarrow> (\<forall>a. p = Some a \<longrightarrow> deref h' a \<noteq> None) \<Longrightarrow> path_is h' p ms"
proof (induction ms arbitrary: p)
  case Nil
  then show ?case by simp
next
  case (Cons m ms)
  from Cons.prems(1) obtain a node where
    p: "p = Some a" "deref h a = Some node" "move node = m" "path_is h (rest node) ms"
    by auto
  from Cons.prems(2) p(1) obtain node' where d': "deref h' a = Some node'" by auto
  from frame_kept [OF assms(1) d'] p(2)
  have same: "move node' = move node" "rest node' = rest node" by auto
  from assms(3) d' have live: "references node' \<noteq> 0" by (auto simp add: no_zombie_def)
  have "\<forall>c. rest node = Some c \<longrightarrow> deref h' c \<noteq> None"
    using counted_rest [OF assms(2) d' live] same by auto
  with Cons.IH [OF p(4)] have "path_is h' (rest node) ms" by simp
  with d' same p show ?case by simp
qed

text \<open>Printing a path prints its moves in play order.\<close>

lemma print_path_loop_path_is:
  "path_is h p ms \<Longrightarrow> print_path_loop h p = Some (rev ms)"
proof (induction ms arbitrary: p)
  case Nil
  then show ?case by (simp add: print_path_loop.simps)
next
  case (Cons m ms)
  then obtain a node where
    p: "p = Some a" "deref h a = Some node" "move node = m" "path_is h (rest node) ms"
    by auto
  from Cons.IH [OF p(4)] p show ?case
    by (subst print_path_loop.simps) simp
qed

lemma path_is_keeps: "keeps h h' \<Longrightarrow> path_is h p ms \<Longrightarrow> path_is h' p ms"
proof (induction ms arbitrary: p)
  case Nil
  then show ?case by simp
next
  case (Cons m ms)
  from Cons.prems(2) obtain a node where
    p: "p = Some a" "deref h a = Some node" "move node = m" "path_is h (rest node) ms"
    by auto
  from Cons.prems(1) p(2) obtain node' where
    "deref h' a = Some node'" "move node' = move node" "rest node' = rest node"
    unfolding keeps_def by blast
  with Cons.IH [OF Cons.prems(1) p(4)] p show ?case by simp
qed


lemma inc_ok:
  assumes ok: "heap_ok h R" and held: "p = None \<or> p \<in># R"
    and bound: "\<forall>a node. p = Some a \<longrightarrow> deref h a = Some node \<longrightarrow> references node < INT_MAX"
  shows "\<exists>h'. inc_reference_to_path h p = Some h' \<and> heap_ok h' (add_mset p R) \<and> keeps h h'
     \<and> length h' = length h
     \<and> (\<forall>b nb. deref h b = Some nb \<longrightarrow>
          deref h' b = Some (if p = Some b then nb\<lparr>references := references nb + 1\<rparr> else nb))"
proof (cases p)
  case None
  with ok show ?thesis
    by (simp add: inc_reference_to_path_def heap_ok_def counted_def keeps_def)
next
  case (Some a)
  with held have inR: "Some a \<in># R" by simp
  from ok have c: "counted h R" and z: "no_zombie h" by (simp_all add: heap_ok_def)
  from counted_root [OF c inR] obtain node where d: "deref h a = Some node" by blast
  from d have al: "a < length h" by (rule deref_less)
  from bound Some d have below: "\<not> INT_MAX \<le> references node" by auto
  from counted_refs [OF c d] inR have pos: "0 < references node"
    by (simp add: count_greater_zero_iff [symmetric] del: count_greater_zero_iff)
  let ?node' = "node\<lparr>references := references node + 1\<rparr>"
  let ?h' = "h[a := Some ?node']"
  have same: "\<And>b. referrers ?h' b = referrers h b"
    using d pos by (intro referrers_update_same) auto
  have "counted ?h' (add_mset (Some a) R)"
    unfolding counted_def
  proof (intro conjI allI impI)
    fix b nb assume "deref ?h' b = Some nb"
    then show "references nb = int (count (add_mset (Some a) R) (Some b)) + int (card (referrers ?h' b))"
      using counted_refs [OF c] d al unfolding same
      by (auto simp add: deref_update split: if_splits)
  next
    fix b assume "Some b \<in># add_mset (Some a) R"
    then show "deref ?h' b \<noteq> None"
      using counted_root [OF c] d al by (auto simp add: deref_update)
  next
    fix b nb c' assume "deref ?h' b = Some nb" "references nb \<noteq> 0" "rest nb = Some c'"
    then show "deref ?h' c' \<noteq> None" "c' < b"
      using counted_rest [OF c, of b _ c'] d al pos
      by (auto simp add: deref_update split: if_splits)
  qed
  moreover have "no_zombie ?h'"
    using z pos by (auto simp add: no_zombie_def deref_update split: if_splits)
  moreover have "keeps h ?h'"
    using d al by (auto simp add: keeps_def deref_update)
  moreover have "\<forall>b nb. deref h b = Some nb \<longrightarrow>
          deref ?h' b = Some (if p = Some b then nb\<lparr>references := references nb + 1\<rparr> else nb)"
    using d al Some by (auto simp add: deref_update)
  ultimately show ?thesis using Some d below
    by (simp add: inc_reference_to_path_def heap_ok_def)
qed

lemma deref_append:
  "deref (h @ [x]) b = (if b < length h then deref h b else if b = length h then x else None)"
  by (simp add: deref_def nth_append)

lemma deref_fresh: "deref h (length h) = None"
  by (simp add: deref_def)


lemma add_move_failed: "add_move_to_path True h p m = Some (h, None)"
  by (simp add: add_move_to_path_def malloc_def)

lemma add_move_ok:
  assumes ok: "heap_ok h R" and held: "p = None \<or> p \<in># R"
    and bound: "\<forall>a node. p = Some a \<longrightarrow> deref h a = Some node \<longrightarrow> references node < INT_MAX"
  shows "\<exists>h'. add_move_to_path False h p m = Some (h', Some (length h))
     \<and> heap_ok h' (add_mset (Some (length h)) R) \<and> keeps h h'
     \<and> length h' = Suc (length h)
     \<and> deref h' (length h) = Some \<lparr>references = 1, move = m, rest = p\<rparr>
     \<and> (\<forall>b nb. deref h b = Some nb \<longrightarrow>
          deref h' b = Some (if p = Some b then nb\<lparr>references := references nb + 1\<rparr> else nb))"
proof -
  from ok have c: "counted h R" and z: "no_zombie h" by (simp_all add: heap_ok_def)
  let ?a = "length h"
  let ?new = "\<lparr>references = 1, move = m, rest = p\<rparr>"
  let ?h1 = "h @ [Some ?new]"
  have pvalid: "\<forall>b. p = Some b \<longrightarrow>
      (\<exists>node. deref h b = Some node \<and> 0 < references node \<and> \<not> INT_MAX \<le> references node)
      \<and> b < ?a"
  proof (intro allI impI)
    fix b assume pb: "p = Some b"
    with held have inR: "Some b \<in># R" by simp
    from counted_root [OF c inR] obtain node where d: "deref h b = Some node" by blast
    from counted_refs [OF c d] inR have "0 < references node"
      by (simp add: count_greater_zero_iff [symmetric] del: count_greater_zero_iff)
    moreover from bound pb d have "\<not> INT_MAX \<le> references node" by auto
    ultimately show "(\<exists>node. deref h b = Some node \<and> 0 < references node
        \<and> \<not> INT_MAX \<le> references node) \<and> b < ?a"
      using d deref_less [OF d] by simp
  qed
  define h' where "h' = (case p of None \<Rightarrow> ?h1
      | Some b \<Rightarrow> ?h1[b := Some ((the (deref h b))\<lparr>references := references (the (deref h b)) + 1\<rparr>)])"
  have run: "add_move_to_path False h p m = Some (h', Some ?a)"
    using pvalid
    by (auto simp add: add_move_to_path_def malloc_def inc_reference_to_path_def h'_def deref_append
        split: option.splits)
  have d': "\<And>b. deref h' b =
      (if b = ?a then Some ?new
       else if p = Some b then Some ((the (deref h b))\<lparr>references := references (the (deref h b)) + 1\<rparr>)
       else deref h b)"
    using pvalid
    by (auto simp add: h'_def deref_append deref_update deref_def nth_append split: option.splits)
  have refd: "\<And>b. referrers h' b = referrers h b \<union> (if p = Some b then {?a} else {})"
  proof -
    fix b
    show "referrers h' b = referrers h b \<union> (if p = Some b then {?a} else {})"
      using pvalid z
      by (auto simp add: referrers_def d' deref_fresh no_zombie_def split: if_splits)
  qed
  have fresh: "\<And>b. ?a \<notin> referrers h b"
    by (auto simp add: referrers_def deref_fresh)
  have cnt: "counted h' (add_mset (Some ?a) R)"
    unfolding counted_def
  proof (intro conjI allI impI)
    fix b nb assume db: "deref h' b = Some nb"
    show "references nb = int (count (add_mset (Some ?a) R) (Some b)) + int (card (referrers h' b))"
    proof (cases "b = ?a")
      case True
      have "Some ?a \<notin># R" using counted_root [OF c, of ?a] by (auto simp add: deref_fresh)
      then have "count R (Some ?a) = 0" by (simp add: count_eq_zero_iff)
      moreover have "referrers h ?a = {}"
        using counted_rest [OF c, of _ _ ?a] by (auto simp add: referrers_def deref_fresh)
      then have "referrers h' ?a = {}"
        using refd [of ?a] pvalid by auto
      ultimately show ?thesis using db True by (auto simp add: d')
    next
      case False
      show ?thesis
      proof (cases "p = Some b")
        case True
        with pvalid obtain node where n: "deref h b = Some node" by blast
        from db True False n have "references nb = references node + 1" by (auto simp add: d')
        moreover have "card (referrers h' b) = Suc (card (referrers h b))"
          using refd [of b] True fresh [of b] finite_referrers [of h b] by simp
        ultimately show ?thesis using counted_refs [OF c n] False by simp
      next
        case np: False
        with db False have "deref h b = Some nb" by (auto simp add: d')
        from counted_refs [OF c this] refd [of b] np False show ?thesis by simp
      qed
    qed
  next
    fix b assume "Some b \<in># add_mset (Some ?a) R"
    then show "deref h' b \<noteq> None"
      using counted_root [OF c, of b] by (auto simp add: d')
  next
    fix b nb c' assume b: "deref h' b = Some nb" "references nb \<noteq> 0" "rest nb = Some c'"
    have "deref h' c' \<noteq> None \<and> c' < b"
    proof (cases "b = ?a")
      case True
      with b have "p = Some c'" by (auto simp add: d')
      with pvalid True show ?thesis by (auto simp add: d')
    next
      case False
      with b obtain node where n: "deref h b = Some node" "rest node = Some c'"
        using pvalid by (auto simp add: d' split: if_splits)
      from z n have "references node \<noteq> 0" by (auto simp add: no_zombie_def)
      from counted_rest [OF c n(1) this n(2)] show ?thesis
        by (auto simp add: d')
    qed
    then show "deref h' c' \<noteq> None" "c' < b" by simp_all
  qed
  have "no_zombie h'"
    using z pvalid by (auto simp add: no_zombie_def d' split: if_splits)
  moreover have "keeps h h'"
    using pvalid by (auto simp add: keeps_def d' deref_fresh dest: deref_less)
  moreover have "length h' = Suc ?a"
    by (simp add: h'_def split: option.splits)
  moreover have "deref h' ?a = Some ?new" by (simp add: d')
  moreover have "\<forall>b nb. deref h b = Some nb \<longrightarrow>
          deref h' b = Some (if p = Some b then nb\<lparr>references := references nb + 1\<rparr> else nb)"
    using pvalid by (auto simp add: d' deref_fresh dest: deref_less)
  ultimately show ?thesis using run cnt by (simp add: heap_ok_def)
qed

lemma heap_ok_None: "heap_ok h (add_mset None R) = heap_ok h R"
  by (simp add: heap_ok_def counted_def)






lemma heap_ok_empty: "heap_ok [] {#}"
  by (simp add: heap_ok_def counted_def no_zombie_def deref_def)



subsection \<open>C7: reference counts of paths\<close>





section \<open>Properties of the search\<close>

lemma seen_update:
  "unat g0 < length vs \<Longrightarrow> seen (vs[unat g0 := True]) g \<longleftrightarrow> seen vs g \<or> g = g0"
  by (auto simp add: seen_def nth_list_update word_unat_eq_iff)

lemma levels_cases:
  assumes "levels initial vs dq" "dq \<noteq> []"
  obtains L fs bs where
    "dq = fs @ bs" "bs \<noteq> []"
    "\<forall>e\<in>set fs. fst e = Suc L" "\<forall>e\<in>set bs. fst e = L"
    "\<forall>ms g. reaches initial ms g \<longrightarrow> length ms < L \<longrightarrow> seen vs g"
    "\<forall>ms g. reaches initial ms g \<longrightarrow> length ms = L \<longrightarrow> seen vs g \<or> g \<in> snd ` set bs"
    "\<forall>v c. seen vs v \<longrightarrow> outcome v = Continue \<longrightarrow> is_star v c \<longrightarrow>
              seen vs (explode v c) \<or> explode v c \<in> snd ` set dq"
    "\<not> seen vs winning_grid"
    "L = 0 \<longrightarrow> dq = [(0, initial)]"
  using assms unfolding levels_def by blast

lemma not_seen_replicate: "\<not> seen (replicate n False) g"
  by (simp add: seen_def)

lemma levels_first_level:
  assumes "levels initial vs (dq0 @ [(0, g0)])"
  shows "dq0 = []"
proof -
  have ne: "dq0 @ [(0, g0)] \<noteq> []" by simp
  from assms ne obtain L fs bs where
    l: "dq0 @ [(0, g0)] = fs @ bs" "bs \<noteq> []"
       "\<forall>e\<in>set fs. fst e = Suc L" "\<forall>e\<in>set bs. fst e = L"
    and k1: "\<forall>ms g. reaches initial ms g \<longrightarrow> length ms < L \<longrightarrow> seen vs g"
    and k2: "\<forall>ms g. reaches initial ms g \<longrightarrow> length ms = L \<longrightarrow> seen vs g \<or> g \<in> snd ` set bs"
    and k3: "\<forall>v c. seen vs v \<longrightarrow> outcome v = Continue \<longrightarrow> is_star v c \<longrightarrow>
              seen vs (explode v c) \<or> explode v c \<in> snd ` set (dq0 @ [(0, g0)])"
    and k5: "\<not> seen vs winning_grid"
    and k6: "L = 0 \<longrightarrow> dq0 @ [(0, g0)] = [(0, initial)]"
    by (rule levels_cases)
  from l(2) obtain bs0 e where b: "bs = bs0 @ [e]" by (cases bs rule: rev_cases) auto
  with l(1) have "e = (0, g0)" by simp
  with l(4) b have "L = 0" by auto
  with k6 show ?thesis by simp
qed

lemma levels_minimal:
  assumes "levels initial vs (dq0 @ [(L0, g0)])" "reaches initial ms winning_grid"
  shows "L0 \<le> length ms"
proof (rule ccontr)
  assume less: "\<not> L0 \<le> length ms"
  have ne: "dq0 @ [(L0, g0)] \<noteq> []" by simp
  from assms(1) ne obtain L fs bs where
    l: "dq0 @ [(L0, g0)] = fs @ bs" "bs \<noteq> []"
       "\<forall>e\<in>set fs. fst e = Suc L" "\<forall>e\<in>set bs. fst e = L"
    and k1: "\<forall>ms g. reaches initial ms g \<longrightarrow> length ms < L \<longrightarrow> seen vs g"
    and k2: "\<forall>ms g. reaches initial ms g \<longrightarrow> length ms = L \<longrightarrow> seen vs g \<or> g \<in> snd ` set bs"
    and k3: "\<forall>v c. seen vs v \<longrightarrow> outcome v = Continue \<longrightarrow> is_star v c \<longrightarrow>
              seen vs (explode v c) \<or> explode v c \<in> snd ` set (dq0 @ [(L0, g0)])"
    and k5: "\<not> seen vs winning_grid"
    and k6: "L = 0 \<longrightarrow> dq0 @ [(L0, g0)] = [(0, initial)]"
    by (rule levels_cases)
  from l(2) obtain bs0 e where b: "bs = bs0 @ [e]" by (cases bs rule: rev_cases) auto
  with l(1) have "e = (L0, g0)" by simp
  with l(4) b have "L = L0" by auto
  with k1 assms(2) less have "seen vs winning_grid" by auto
  with k5 show False by simp
qed

text \<open>One pass of the loop keeps the order of the queue.\<close>

lemma levels_step:
  assumes lv: "levels initial vs (dq0 @ [(L0, g0)])"
    and bound: "unat g0 < length vs"
    and notwon: "g0 \<noteq> winning_grid"
    and depth: "\<forall>e\<in>set C. fst e = Suc L0"
    and children: "\<forall>c. outcome g0 = Continue \<longrightarrow> is_star g0 c \<longrightarrow>
        seen (vs[unat g0 := True]) (explode g0 c) \<or> explode g0 c \<in> snd ` set C"
  shows "levels initial (vs[unat g0 := True]) (C @ dq0)"
proof -
  let ?vs = "vs[unat g0 := True]"
  note su = seen_update [OF bound]
  have ne: "dq0 @ [(L0, g0)] \<noteq> []" by simp
  from lv ne obtain L fs bs where
    l: "dq0 @ [(L0, g0)] = fs @ bs" "bs \<noteq> []"
       "\<forall>e\<in>set fs. fst e = Suc L" "\<forall>e\<in>set bs. fst e = L"
    and k1: "\<forall>ms g. reaches initial ms g \<longrightarrow> length ms < L \<longrightarrow> seen vs g"
    and k2: "\<forall>ms g. reaches initial ms g \<longrightarrow> length ms = L \<longrightarrow> seen vs g \<or> g \<in> snd ` set bs"
    and k3: "\<forall>v c. seen vs v \<longrightarrow> outcome v = Continue \<longrightarrow> is_star v c \<longrightarrow>
              seen vs (explode v c) \<or> explode v c \<in> snd ` set (dq0 @ [(L0, g0)])"
    and k5: "\<not> seen vs winning_grid"
    and k6: "L = 0 \<longrightarrow> dq0 @ [(L0, g0)] = [(0, initial)]"
    by (rule levels_cases)
  from l(2) obtain bs0 e where b: "bs = bs0 @ [e]" by (cases bs rule: rev_cases) auto
  with l(1) have e: "e = (L0, g0)" and dq0: "dq0 = fs @ bs0" by simp_all
  from l(4) b e have L: "L = L0" by auto
  have k3': "\<forall>v c. seen ?vs v \<longrightarrow> outcome v = Continue \<longrightarrow> is_star v c \<longrightarrow>
              seen ?vs (explode v c) \<or> explode v c \<in> snd ` set (C @ dq0)"
  proof (intro allI impI)
    fix v c assume v: "seen ?vs v" "outcome v = Continue" "is_star v c"
    show "seen ?vs (explode v c) \<or> explode v c \<in> snd ` set (C @ dq0)"
    proof (cases "v = g0")
      case True
      with v children show ?thesis by auto
    next
      case False
      with v(1) have "seen vs v" by (simp add: su)
      with k3 v have "seen vs (explode v c) \<or> explode v c \<in> snd ` set (dq0 @ [(L0, g0)])" by blast
      then show ?thesis by (auto simp add: su)
    qed
  qed
  have k5': "\<not> seen ?vs winning_grid" using k5 notwon by (simp add: su)
  show ?thesis
  proof (cases "bs0 = []")
    case False
    have "C @ dq0 = (C @ fs) @ bs0" using dq0 by simp
    moreover have "\<forall>e\<in>set (C @ fs). fst e = Suc L" using depth l(3) L by auto
    moreover have "\<forall>e\<in>set bs0. fst e = L" using l(4) b by auto
    moreover have "\<forall>ms g. reaches initial ms g \<longrightarrow> length ms < L \<longrightarrow> seen ?vs g"
      using k1 by (auto simp add: su)
    moreover have "\<forall>ms g. reaches initial ms g \<longrightarrow> length ms = L \<longrightarrow> seen ?vs g \<or> g \<in> snd ` set bs0"
    proof (intro allI impI)
      fix ms g assume "reaches initial ms g" "length ms = L"
      with k2 have "seen vs g \<or> g \<in> snd ` set bs" by blast
      then show "seen ?vs g \<or> g \<in> snd ` set bs0" using b e by (auto simp add: su)
    qed
    moreover have "L = 0 \<longrightarrow> C @ dq0 = [(0, initial)]"
      using k6 dq0 False by auto
    ultimately show ?thesis using False k3' k5' unfolding levels_def by blast
  next
    case True
    show ?thesis
    proof (cases "C @ dq0 = []")
      case True
      then show ?thesis by (simp add: levels_def)
    next
      case ne: False
      have all: "\<forall>e\<in>set (C @ dq0). fst e = Suc L" using depth l(3) L dq0 True by auto
      have k1': "\<forall>ms g. reaches initial ms g \<longrightarrow> length ms < Suc L \<longrightarrow> seen ?vs g"
      proof (intro allI impI)
        fix ms g assume r: "reaches initial ms g" "length ms < Suc L"
        show "seen ?vs g"
        proof (cases "length ms < L")
          case True
          with k1 r show ?thesis by (auto simp add: su)
        next
          case False
          with r have "length ms = L" by simp
          with k2 r have "seen vs g \<or> g \<in> snd ` set bs" by blast
          then show ?thesis using b e True by (auto simp add: su)
        qed
      qed
      have k2': "\<forall>ms g. reaches initial ms g \<longrightarrow> length ms = Suc L \<longrightarrow>
                  seen ?vs g \<or> g \<in> snd ` set (C @ dq0)"
      proof (intro allI impI)
        fix ms g assume r: "reaches initial ms g" "length ms = Suc L"
        then obtain m ms1 where ms: "ms = m # ms1" "length ms1 = L" by (cases ms) auto
        with r obtain g' where
          g': "reaches initial ms1 g'" "outcome g' = Continue" "is_star g' m" "g = explode g' m"
          by auto
        from k1' g'(1) ms(2) have "seen ?vs g'" by auto
        with k3' g' show "seen ?vs g \<or> g \<in> snd ` set (C @ dq0)" by blast
      qed
      have "C @ dq0 = [] @ (C @ dq0)" by simp
      moreover have "\<forall>e\<in>set ([] :: (nat \<times> Grid) list). fst e = Suc (Suc L)" by simp
      moreover have "Suc L = 0 \<longrightarrow> C @ dq0 = [(0, initial)]" by simp
      ultimately show ?thesis using ne all k1' k2' k3' k5' unfolding levels_def by blast
    qed
  qed
qed

lemma levels_initial: "levels initial (replicate 512 False) [(0, initial)]"
proof -
  have "[(0, initial)] = [] @ [(0::nat, initial)]" by simp
  moreover have "[(0::nat, initial)] \<noteq> []" by simp
  moreover have "\<forall>e\<in>set ([] :: (nat \<times> Grid) list). fst e = Suc 0" by simp
  moreover have "\<forall>e\<in>set [(0::nat, initial)]. fst e = 0" by simp
  moreover have "\<forall>ms g. reaches initial ms g \<longrightarrow> length ms < 0 \<longrightarrow> seen (replicate 512 False) g"
    by simp
  moreover have "\<forall>ms g. reaches initial ms g \<longrightarrow> length ms = 0 \<longrightarrow>
      seen (replicate 512 False) g \<or> g \<in> snd ` set [(0::nat, initial)]" by auto
  moreover have "\<forall>v c. seen (replicate 512 False) v \<longrightarrow> outcome v = Continue \<longrightarrow> is_star v c \<longrightarrow>
      seen (replicate 512 False) (explode v c) \<or> explode v c \<in> snd ` set [(0::nat, initial)]"
    by (simp add: not_seen_replicate)
  moreover have "\<not> seen (replicate 512 False) winning_grid" by (simp add: not_seen_replicate)
  moreover have "(0::nat) = 0 \<longrightarrow> [(0::nat, initial)] = [(0, initial)]" by simp
  ultimately show ?thesis unfolding levels_def by blast
qed

lemma keeps_refl: "keeps h h"
  by (simp add: keeps_def)

lemma keeps_trans: "keeps h h1 \<Longrightarrow> keeps h1 h2 \<Longrightarrow> keeps h h2"
  unfolding keeps_def by fastforce

lemma entry_of_keeps: "keeps h h' \<Longrightarrow> entry_of h initial node ms \<Longrightarrow> entry_of h' initial node ms"
  by (auto simp add: entry_of_def intro: path_is_keeps)

lemma entries_keeps:
  "keeps h h' \<Longrightarrow> list_all2 (entry_of h initial) q mss \<Longrightarrow> list_all2 (entry_of h' initial) q mss"
  by (erule list_all2_mono) (rule entry_of_keeps)

lemma grid_index: "(g::Grid) < 512 \<Longrightarrow> unat g < 512"
  by (simp add: word_less_nat_alt)

lemma read_visited_seen:
  "g < 512 \<Longrightarrow> length vs = 512 \<Longrightarrow> read_visited vs g = Some (seen vs g)"
  by (simp add: read_visited_def seen_def grid_index)

lemma children_split:
  "i \<le> 9 \<Longrightarrow>
   {explode g c |c. i \<le> c \<and> is_star g c \<and> \<not> seen vs (explode g c)} =
   (if is_star g i \<and> \<not> seen vs (explode g i) then {explode g i} else {})
   \<union> {explode g c |c. i + 1 \<le> c \<and> is_star g c \<and> \<not> seen vs (explode g c)}"
proof -
  have "\<And>c. i \<le> c \<longleftrightarrow> c = i \<or> i + 1 \<le> c" by arith
  then show ?thesis by auto
qed

text \<open>A frame keeps the nodes that have one reference and are still allocated.\<close>

lemma queue_ok_frame:
  assumes "frame h h'" "queue_ok h q"
  shows "queue_ok h' q"
  unfolding queue_ok_def
proof (intro ballI conjI allI impI)
  fix node assume "node \<in> set q"
  with assms(2) show "snd node < 512" by (simp add: queue_ok_def)
next
  fix node a n assume n: "node \<in> set q" "fst node = Some a" "deref h' a = Some n"
  from frame_kept [OF assms(1) n(3)] obtain n0 where
    n0: "deref h a = Some n0"
        "n = n0 \<or> (references n0 \<noteq> 1 \<and> references n0 \<noteq> 0
           \<and> n = n0\<lparr>references := references n0 - 1\<rparr>)"
    by blast
  from assms(2) n(1,2) n0(1) have "references n0 = 1" by (auto simp add: queue_ok_def)
  with n0(2) show "references n = 1" by auto
qed

text \<open>The path of the node taken from the queue is not the path of a node still waiting.\<close>

lemma queue_ok_other:
  assumes ok: "heap_ok h (add_mset p (mset (map fst q) + Lk))" and qk: "queue_ok h q"
    and n: "node \<in> set q" "fst node = Some b"
  shows "p \<noteq> Some b" "\<exists>nb. deref h b = Some nb \<and> references nb = 1"
proof -
  let ?R = "add_mset p (mset (map fst q) + Lk)"
  from ok have c: "counted h ?R" by (simp add: heap_ok_def)
  from n have inq: "Some b \<in># mset (map fst q)" by force
  then have "Some b \<in># ?R" by simp
  from counted_root [OF c this] obtain nb where d: "deref h b = Some nb" by blast
  with qk n have one: "references nb = 1" by (auto simp add: queue_ok_def)
  with d show "\<exists>nb. deref h b = Some nb \<and> references nb = 1" by simp
  show "p \<noteq> Some b"
  proof
    assume "p = Some b"
    then have "count ?R (Some b) = Suc (count (mset (map fst q)) (Some b) + count Lk (Some b))"
      by simp
    moreover from inq have "1 \<le> count (mset (map fst q)) (Some b)"
      using count_greater_eq_one_iff [of "mset (map fst q)" "Some b"] by blast
    ultimately have "2 \<le> count ?R (Some b)" by linarith
    with counted_refs [OF c d] one show False by simp
  qed
qed

text \<open>
  One pass of the \<^verbatim>\<open>for\<close> loop, for one cell. Whatever the two allocations do, the counts
  stay exact: when the node of the queue cannot be allocated, the new path is lost with its
  reference; when the new path cannot be allocated, the node is pushed without a path.
\<close>

lemma visit_cell_ok:
  assumes g: "g < 512" and len: "length vs = 512"
    and ok: "heap_ok h (add_mset p (mset (map fst q) + Lk))"
    and qk: "queue_ok h q"
    and bound: "\<forall>a n. p = Some a \<longrightarrow> deref h a = Some n \<longrightarrow> references n \<le> k"
    and k: "k < INT_MAX"
  shows "\<exists>h' C Lk' n'. visit_cell fails vs (p, g) (h, q, n) i = Some (h', C @ q, n')
     \<and> heap_ok h' (add_mset p (mset (map fst (C @ q)) + Lk'))
     \<and> keeps h h'
     \<and> queue_ok h' (C @ q)
     \<and> (\<forall>a n. p = Some a \<longrightarrow> deref h' a = Some n \<longrightarrow> references n \<le> k + 1)
     \<and> (\<forall>e\<in>set C. \<not> seen vs (snd e))
     \<and> ((\<forall>j. \<not> fails j) \<longrightarrow>
          C = (if is_star g i \<and> \<not> seen vs (explode g i) then [(Some (length h), explode g i)]
               else [])
          \<and> (is_star g i \<and> \<not> seen vs (explode g i) \<longrightarrow>
               (\<exists>node. deref h' (length h) = Some node \<and> move node = i \<and> rest node = p)))"
proof (cases "is_star g i \<and> \<not> seen vs (explode g i)")
  case False
  then have vc: "visit_cell fails vs (p, g) (h, q, n) i = Some (h, q, n)"
    using read_visited_seen [OF explode_less_512 [OF g] len, of i]
    by (auto simp add: visit_cell_def)
  have b': "\<forall>a n. p = Some a \<longrightarrow> deref h a = Some n \<longrightarrow> references n \<le> k + 1"
    using bound by fastforce
  show ?thesis
    using vc ok qk b' False
    by (intro exI [of _ h] exI [of _ "[]"] exI [of _ Lk] exI [of _ n]) (auto simp add: keeps_def)
next
  case push: True
  let ?g' = "explode g i"
  let ?R = "add_mset p (mset (map fst q) + Lk)"
  have g': "?g' < 512" using g by (rule explode_less_512)
  have rv: "read_visited vs ?g' = Some False"
    using read_visited_seen [OF g' len] push by simp
  have "\<exists>h1 pn. add_move_to_path (fails n) h p i = Some (h1, pn)
      \<and> heap_ok h1 (add_mset p (add_mset pn (mset (map fst q) + Lk)))
      \<and> keeps h h1 \<and> queue_ok h1 q
      \<and> (\<forall>a n. p = Some a \<longrightarrow> deref h1 a = Some n \<longrightarrow> references n \<le> k + 1)
      \<and> (\<forall>a n. pn = Some a \<longrightarrow> deref h1 a = Some n \<longrightarrow> references n = 1)
      \<and> (\<not> fails n \<longrightarrow> pn = Some (length h)
            \<and> (\<exists>node. deref h1 (length h) = Some node \<and> move node = i \<and> rest node = p))"
  proof (cases "fails n")
    case True
    have "\<forall>a n. p = Some a \<longrightarrow> deref h a = Some n \<longrightarrow> references n \<le> k + 1"
      using bound by fastforce
    moreover have "heap_ok h (add_mset p (add_mset None (mset (map fst q) + Lk)))"
      using ok by (simp add: heap_ok_def counted_def)
    ultimately show ?thesis using True qk
      by (intro exI [of _ h] exI [of _ None]) (simp add: add_move_failed keeps_def)
  next
    case False
    have held: "p = None \<or> p \<in># ?R" by simp
    have below: "\<forall>a node. p = Some a \<longrightarrow> deref h a = Some node \<longrightarrow> references node < INT_MAX"
      using bound k by fastforce
    from add_move_ok [OF ok held below, of i] obtain h1 where
      am: "add_move_to_path False h p i = Some (h1, Some (length h))"
      and ok1: "heap_ok h1 (add_mset (Some (length h)) ?R)"
      and k1: "keeps h h1"
      and new: "deref h1 (length h) = Some \<lparr>references = 1, move = i, rest = p\<rparr>"
      and old: "\<forall>b nb. deref h b = Some nb \<longrightarrow>
          deref h1 b = Some (if p = Some b then nb\<lparr>references := references nb + 1\<rparr> else nb)"
      by blast
    have qk1: "queue_ok h1 q"
      unfolding queue_ok_def
    proof (intro ballI conjI allI impI)
      fix node assume "node \<in> set q"
      with qk show "snd node < 512" by (simp add: queue_ok_def)
    next
      fix node b n1 assume nd: "node \<in> set q" "fst node = Some b" "deref h1 b = Some n1"
      from queue_ok_other [OF ok qk nd(1,2)] obtain nb where
        "p \<noteq> Some b" "deref h b = Some nb" "references nb = 1" by blast
      with old nd(3) show "references n1 = 1" by auto
    qed
    have b1: "\<forall>a n. p = Some a \<longrightarrow> deref h1 a = Some n \<longrightarrow> references n \<le> k + 1"
    proof (intro allI impI)
      fix a n1 assume pa: "p = Some a" "deref h1 a = Some n1"
      from ok have "counted h ?R" by (simp add: heap_ok_def)
      from counted_root [OF this, of a] pa(1) obtain na where na: "deref h a = Some na" by auto
      with bound pa(1) have "references na \<le> k" by simp
      with old na pa show "references n1 \<le> k + 1" by auto
    qed
    from False am ok1 k1 qk1 b1 new show ?thesis
      by (intro exI [of _ h1] exI [of _ "Some (length h)"]) (simp add: add_mset_commute)
  qed
  then obtain h1 pn where
    am: "add_move_to_path (fails n) h p i = Some (h1, pn)"
    and ok1: "heap_ok h1 (add_mset p (add_mset pn (mset (map fst q) + Lk)))"
    and k1: "keeps h h1" and qk1: "queue_ok h1 q"
    and b1: "\<forall>a n. p = Some a \<longrightarrow> deref h1 a = Some n \<longrightarrow> references n \<le> k + 1"
    and one: "\<forall>a n. pn = Some a \<longrightarrow> deref h1 a = Some n \<longrightarrow> references n = 1"
    and nf: "\<not> fails n \<longrightarrow> pn = Some (length h)
            \<and> (\<exists>node. deref h1 (length h) = Some node \<and> move node = i \<and> rest node = p)"
    by blast
  let ?C = "if fails (n + 1) then [] else [(pn, ?g')]"
  let ?Lk = "if fails (n + 1) then add_mset pn Lk else Lk"
  have vc: "visit_cell fails vs (p, g) (h, q, n) i = Some (h1, ?C @ q, n + 2)"
    using push rv am by (simp add: visit_cell_def push_front_def)
  moreover have "heap_ok h1 (add_mset p (mset (map fst (?C @ q)) + ?Lk))"
    using ok1 by simp
  moreover have "queue_ok h1 (?C @ q)"
    using qk1 one g' by (simp add: queue_ok_def)
  moreover have "\<forall>e\<in>set ?C. \<not> seen vs (snd e)"
    using push by simp
  moreover have "(\<forall>j. \<not> fails j) \<longrightarrow>
          ?C = (if is_star g i \<and> \<not> seen vs (explode g i) then [(Some (length h), explode g i)]
               else [])
          \<and> (is_star g i \<and> \<not> seen vs (explode g i) \<longrightarrow>
               (\<exists>node. deref h1 (length h) = Some node \<and> move node = i \<and> rest node = p))"
    using nf push by simp
  ultimately show ?thesis using k1 b1 by blast
qed

text \<open>The \<^verbatim>\<open>for\<close> loop keeps the counts exact, whichever allocations fail, and pushes only
  grids that were not visited.\<close>

lemma for_cells_ok:
  assumes g: "g < 512"
  shows "length vs = 512 \<Longrightarrow> heap_ok h (add_mset p (mset (map fst q) + Lk)) \<Longrightarrow> queue_ok h q \<Longrightarrow>
     (\<forall>a n. p = Some a \<longrightarrow> deref h a = Some n \<longrightarrow> references n \<le> i) \<Longrightarrow>
     \<exists>h' C Lk' n'. for_cells fails i vs (p, g) (h, q, n) = Some (h', C @ q, n')
        \<and> heap_ok h' (add_mset p (mset (map fst (C @ q)) + Lk'))
        \<and> keeps h h'
        \<and> queue_ok h' (C @ q)
        \<and> (\<forall>e\<in>set C. \<not> seen vs (snd e))"
proof (induction fails i vs "(p, g)" "(h, q, n)" arbitrary: h q n Lk rule: for_cells.induct)
  case (1 fails i vs h q n Lk)
  note len = "1.prems"(1) and okh = "1.prems"(2) and qk = "1.prems"(3) and bound = "1.prems"(4)
  show ?case
  proof (cases "i \<le> 9")
    case False
    then have "for_cells fails i vs (p, g) (h, q, n) = Some (h, q, n)"
      by (subst for_cells.simps) simp
    then show ?thesis using okh qk
      by (intro exI [of _ h] exI [of _ "[]"] exI [of _ Lk] exI [of _ n]) (simp add: keeps_refl)
  next
    case True
    then have i: "i < INT_MAX" by (simp add: INT_MAX_def)
    from visit_cell_ok [OF g len okh qk bound i, of fails n i] obtain h1 C1 Lk1 n1 where
      vc: "visit_cell fails vs (p, g) (h, q, n) i = Some (h1, C1 @ q, n1)"
      and ok1: "heap_ok h1 (add_mset p (mset (map fst (C1 @ q)) + Lk1))"
      and k1: "keeps h h1"
      and qk1: "queue_ok h1 (C1 @ q)"
      and b1: "\<forall>a n. p = Some a \<longrightarrow> deref h1 a = Some n \<longrightarrow> references n \<le> i + 1"
      and u1: "\<forall>e\<in>set C1. \<not> seen vs (snd e)"
      by blast
    from "1.hyps" [OF True vc len ok1 qk1 b1] obtain h' C2 Lk' n' where
      fc: "for_cells fails (i + 1) vs (p, g) (h1, C1 @ q, n1) = Some (h', C2 @ C1 @ q, n')"
      and ok': "heap_ok h' (add_mset p (mset (map fst (C2 @ C1 @ q)) + Lk'))"
      and k': "keeps h1 h'"
      and qk': "queue_ok h' (C2 @ C1 @ q)"
      and u2: "\<forall>e\<in>set C2. \<not> seen vs (snd e)"
      by blast
    have "for_cells fails i vs (p, g) (h, q, n) = Some (h', (C2 @ C1) @ q, n')"
      using True vc fc by (subst for_cells.simps) simp
    moreover have "heap_ok h' (add_mset p (mset (map fst ((C2 @ C1) @ q)) + Lk'))"
      using ok' by simp
    moreover have "keeps h h'" using k1 k' by (rule keeps_trans)
    moreover have "queue_ok h' ((C2 @ C1) @ q)" using qk' by simp
    moreover have "\<forall>e\<in>set (C2 @ C1). \<not> seen vs (snd e)" using u1 u2 by auto
    ultimately show ?thesis by blast
  qed
qed

text \<open>When no allocation fails the \<^verbatim>\<open>for\<close> loop pushes the grids one explosion away that
  were not visited, each with the path that leads to it.\<close>

lemma for_cells_children:
  assumes g: "g < 512" and r: "reaches initial ms g" and o: "outcome g = Continue"
  shows "\<forall>j. \<not> fails j \<Longrightarrow> length vs = 512 \<Longrightarrow>
     heap_ok h (add_mset p (mset (map fst q) + Lk)) \<Longrightarrow> queue_ok h q \<Longrightarrow>
     (\<forall>a n. p = Some a \<longrightarrow> deref h a = Some n \<longrightarrow> references n \<le> i) \<Longrightarrow>
     path_is h p ms \<Longrightarrow>
     \<exists>h' C Cm n'. for_cells fails i vs (p, g) (h, q, n) = Some (h', C @ q, n')
        \<and> list_all2 (entry_of h' initial) C Cm
        \<and> (\<forall>ms'\<in>set Cm. length ms' = Suc (length ms))
        \<and> snd ` set C = {explode g c |c. i \<le> c \<and> is_star g c \<and> \<not> seen vs (explode g c)}"
proof (induction fails i vs "(p, g)" "(h, q, n)" arbitrary: h q n Lk rule: for_cells.induct)
  case (1 fails i vs h q n Lk)
  note nf = "1.prems"(1) and len = "1.prems"(2) and okh = "1.prems"(3) and qk = "1.prems"(4)
    and bound = "1.prems"(5) and ph = "1.prems"(6)
  show ?case
  proof (cases "i \<le> 9")
    case False
    then have "{explode g c |c. i \<le> c \<and> is_star g c \<and> \<not> seen vs (explode g c)} = {}"
      by (auto dest: is_star_range)
    moreover from False have "for_cells fails i vs (p, g) (h, q, n) = Some (h, q, n)"
      by (subst for_cells.simps) simp
    ultimately show ?thesis
      by (intro exI [of _ h] exI [of _ "[]"] exI [of _ n]) simp
  next
    case True
    then have i: "i < INT_MAX" by (simp add: INT_MAX_def)
    from visit_cell_ok [OF g len okh qk bound i, of fails n i] nf obtain h1 C1 Lk1 n1 where
      vc: "visit_cell fails vs (p, g) (h, q, n) i = Some (h1, C1 @ q, n1)"
      and ok1: "heap_ok h1 (add_mset p (mset (map fst (C1 @ q)) + Lk1))"
      and k1: "keeps h h1"
      and qk1: "queue_ok h1 (C1 @ q)"
      and b1: "\<forall>a n. p = Some a \<longrightarrow> deref h1 a = Some n \<longrightarrow> references n \<le> i + 1"
      and c1: "C1 = (if is_star g i \<and> \<not> seen vs (explode g i)
                    then [(Some (length h), explode g i)] else [])"
      and new: "is_star g i \<and> \<not> seen vs (explode g i) \<longrightarrow>
               (\<exists>node. deref h1 (length h) = Some node \<and> move node = i \<and> rest node = p)"
      by blast
    from k1 ph have p1: "path_is h1 p ms" by (rule path_is_keeps)
    from "1.hyps" [OF True vc nf len ok1 qk1 b1 p1] obtain h' C2 Cm2 n' where
      fc: "for_cells fails (i + 1) vs (p, g) (h1, C1 @ q, n1) = Some (h', C2 @ C1 @ q, n')"
      and e2: "list_all2 (entry_of h' initial) C2 Cm2"
      and d2: "\<forall>ms'\<in>set Cm2. length ms' = Suc (length ms)"
      and s2: "snd ` set C2
                 = {explode g c |c. i + 1 \<le> c \<and> is_star g c \<and> \<not> seen vs (explode g c)}"
      by blast
    have run: "for_cells fails i vs (p, g) (h, q, n) = Some (h', (C2 @ C1) @ q, n')"
      using True vc fc by (subst for_cells.simps) simp
    have k': "keeps h1 h'"
      using for_cells_ok [OF g len ok1 qk1 b1, of fails n1] fc by auto
    show ?thesis
    proof (cases "is_star g i \<and> \<not> seen vs (explode g i)")
      case False
      with c1 have "C1 = []" by simp
      with run e2 d2 s2 False show ?thesis
        by (intro exI [of _ h'] exI [of _ C2] exI [of _ Cm2] exI [of _ n'])
          (auto simp add: children_split [OF True, of g vs])
    next
      case push: True
      with c1 new obtain node where
        c1': "C1 = [(Some (length h), explode g i)]"
        and nd: "deref h1 (length h) = Some node" "move node = i" "rest node = p"
        by auto
      have "entry_of h1 initial (Some (length h), explode g i) (i # ms)"
        using nd p1 r o push explode_less_512 [OF g, of i] by (auto simp add: entry_of_def)
      with k' have e: "entry_of h' initial (Some (length h), explode g i) (i # ms)"
        by (rule entry_of_keeps)
      have "list_all2 (entry_of h' initial) (C2 @ C1) (Cm2 @ [i # ms])"
        using e2 e c1' by (simp add: list_all2_appendI)
      moreover have "\<forall>ms'\<in>set (Cm2 @ [i # ms]). length ms' = Suc (length ms)"
        using d2 by simp
      moreover have "snd ` set (C2 @ C1)
          = {explode g c |c. i \<le> c \<and> is_star g c \<and> \<not> seen vs (explode g c)}"
        using s2 push c1' by (simp only: children_split [OF True, of g vs]) auto
      ultimately show ?thesis using run by blast
    qed
  qed
qed

lemma takeWhile_append_none: "(\<forall>e\<in>set ys. \<not> P e) \<Longrightarrow> takeWhile P (xs @ ys) = takeWhile P xs"
  by (induction xs) (auto simp add: takeWhile_eq_Nil_iff intro: takeWhile_eq_Nil_iff [THEN iffD2])

lemma mark_less:
  "i < length xs \<Longrightarrow> \<not> xs ! i \<Longrightarrow>
   length (filter (\<lambda>b. \<not> b) (xs[i := True])) < length (filter (\<lambda>b. \<not> b) xs)"
proof (induction xs arbitrary: i)
  case Nil
  then show ?case by simp
next
  case (Cons x xs)
  show ?case
  proof (cases i)
    case 0
    with Cons.prems show ?thesis by (simp add: less_Suc_eq_le)
  next
    case (Suc j)
    with Cons.prems Cons.IH [of j] show ?thesis by auto
  qed
qed

lemma depths_append:
  "length mss = length q \<Longrightarrow> depths (mss @ mss') (q @ q') = depths mss q @ depths mss' q'"
  by (simp add: depths_def)

lemma depths_fst: "length mss = length q \<Longrightarrow> map fst (depths mss q) = map length mss"
  by (simp add: depths_def)

lemma depths_snd: "length mss = length q \<Longrightarrow> map snd (depths mss q) = map snd q"
  by (simp add: depths_def)

lemma depths_Nil: "length mss = length q \<Longrightarrow> depths mss q = [] \<longleftrightarrow> q = []"
  by (cases q; cases mss) (simp_all add: depths_def)

lemma entries_frame:
  assumes "frame h h'" "heap_ok h' (mset (map fst q) + Lk)"
    "list_all2 (entry_of h initial) q mss"
  shows "list_all2 (entry_of h' initial) q mss"
  using assms(3)
proof (rule list.rel_mono_strong)
  fix node ms assume n: "node \<in> set q" and e: "entry_of h initial node ms"
  from assms(2) have c: "counted h' (mset (map fst q) + Lk)" and z: "no_zombie h'"
    by (simp_all add: heap_ok_def)
  have "\<forall>a. fst node = Some a \<longrightarrow> deref h' a \<noteq> None"
  proof (intro allI impI)
    fix a assume "fst node = Some a"
    with n have "Some a \<in># mset (map fst q)" by force
    then have "Some a \<in># mset (map fst q) + Lk" by simp
    from counted_root [OF c this] show "deref h' a \<noteq> None" by auto
  qed
  with path_is_frame [OF assms(1) c z, of "fst node" ms] e
  show "entry_of h' initial node ms" by (simp add: entry_of_def)
qed

lemma heap_ok_mono_valid:
  "heap_ok h R \<Longrightarrow> p \<in># R \<Longrightarrow> \<forall>a. p = Some a \<longrightarrow> deref h a \<noteq> None"
  using counted_root [of h R] by (auto simp add: heap_ok_def)

lemma outcome_Won: "outcome g = Won \<longleftrightarrow> g = winning_grid"
  by (simp add: outcome_def winning_grid_def empty_grid_def)

lemma outcome_cases: "g \<noteq> winning_grid \<Longrightarrow> outcome g = Lost \<or> outcome g = Continue"
  by (simp add: outcome_def)

lemma path_is_None: "path_is h None ms \<longleftrightarrow> ms = []"
  by (cases ms) simp_all

text \<open>One pass of the \<^verbatim>\<open>while\<close> loop, whichever allocations fail: it ends the search, or
  it keeps the invariant and makes the measure smaller. When no allocation fails, the search
  ends with a shortest path.\<close>

lemma visit_node_step:
  assumes inv: "search_inv fails initial s" and q: "to_visit s = q0 @ [(p, g0)]"
  shows "\<exists>s'. visit_node fails (s\<lparr>to_visit := q0\<rparr>) (p, g0) = Some s' \<and>
          (if winning_path s' \<noteq> None then search_post fails initial s'
           else search_inv fails initial s'
              \<and> (unvisited s' < unvisited s \<or> (unvisited s' = unvisited s \<and> stale s' < stale s)))"
proof -
  let ?h = "mem s" and ?vs = "visited s"
  from inv q obtain Lk where len: "length ?vs = 512" and wp: "winning_path s = None"
    and ok: "heap_ok ?h (mset (map fst (q0 @ [(p, g0)])) + Lk)"
    and qk: "queue_ok ?h (q0 @ [(p, g0)])"
    by (auto simp add: search_inv_def)
  from qk have g0: "g0 < 512" and qk0: "queue_ok ?h q0"
    and one: "\<forall>a n. p = Some a \<longrightarrow> deref ?h a = Some n \<longrightarrow> references n = 1"
    by (simp_all add: queue_ok_def)
  from ok have ok': "heap_ok ?h (add_mset p (mset (map fst q0) + Lk))" by simp
  have l2: "\<exists>mss0 ms0. list_all2 (entry_of ?h initial) q0 mss0 \<and> length mss0 = length q0
      \<and> path_is ?h p ms0 \<and> reaches initial ms0 g0
      \<and> levels initial ?vs (depths mss0 q0 @ [(length ms0, g0)])"
    if nf: "\<forall>k. \<not> fails k"
  proof -
    from inv nf q obtain mss where
      ents: "list_all2 (entry_of ?h initial) (q0 @ [(p, g0)]) mss"
      and lv: "levels initial ?vs (depths mss (q0 @ [(p, g0)]))"
      by (auto simp add: search_inv_def)
    from ents obtain mss0 ms0 where mss: "mss = mss0 @ [ms0]"
      and ents0: "list_all2 (entry_of ?h initial) q0 mss0"
      and e0: "entry_of ?h initial (p, g0) ms0"
      by (auto simp add: list_all2_append1 list_all2_Cons1)
    from ents0 have l0: "length mss0 = length q0" by (simp add: list_all2_lengthD)
    from e0 have p0: "path_is ?h p ms0" and r0: "reaches initial ms0 g0"
      by (simp_all add: entry_of_def)
    have "depths mss (q0 @ [(p, g0)]) = depths mss0 q0 @ [(length ms0, g0)]"
      using mss l0 by (simp add: depths_append) (simp add: depths_def)
    with lv have "levels initial ?vs (depths mss0 q0 @ [(length ms0, g0)])" by simp
    with ents0 l0 p0 r0 show ?thesis by blast
  qed
  from g0 len have idx: "unat g0 < length ?vs" by (simp add: grid_index)
  let ?vs' = "?vs[unat g0 := True]"
  from idx have wv: "write_visited ?vs g0 = Some ?vs'" by (simp add: write_visited_def)
  have meas: "unvisited s' < unvisited s \<or> (unvisited s' = unvisited s \<and> stale s' < stale s)"
    if v: "visited s' = ?vs'" and t: "to_visit s' = C @ q0"
      and c: "\<forall>e\<in>set C. \<not> seen ?vs' (snd e)" for s' C
  proof (cases "?vs ! unat g0")
    case False
    with idx have "unvisited s' < unvisited s"
      unfolding unvisited_def v by (intro mark_less) simp_all
    then show ?thesis by simp
  next
    case True
    then have same: "?vs' = ?vs" using list_update_id [of ?vs "unat g0"] by simp
    from True idx have sg: "seen ?vs g0" by (simp add: seen_def)
    have "stale s' = length (takeWhile (\<lambda>node. seen ?vs (snd node)) (rev q0))"
      unfolding stale_def v t same using c
      by (simp add: same takeWhile_append_none)
    moreover have "stale s = Suc (length (takeWhile (\<lambda>node. seen ?vs (snd node)) (rev q0)))"
      unfolding stale_def q using sg by simp
    ultimately show ?thesis using v same by (simp add: unvisited_def)
  qed
  show ?thesis
  proof (cases "g0 = winning_grid")
    case True
    then have out: "outcome g0 = Won" by (simp add: outcome_Won)
    have held: "p = None \<or> p \<in># add_mset p (mset (map fst q0) + Lk)" by simp
    have below: "\<forall>a n. p = Some a \<longrightarrow> deref ?h a = Some n \<longrightarrow> references n < INT_MAX"
      using one by (auto simp add: INT_MAX_def)
    from inc_ok [OF ok' held below] obtain h1 where
      inc: "inc_reference_to_path ?h p = Some h1"
      and ok1: "heap_ok h1 (add_mset p (add_mset p (mset (map fst q0) + Lk)))"
      and k1: "keeps ?h h1"
      and old: "\<forall>b nb. deref ?h b = Some nb \<longrightarrow>
          deref h1 b = Some (if p = Some b then nb\<lparr>references := references nb + 1\<rparr> else nb)"
      by blast
    from drop_ok [OF ok1] obtain h2 where
      dr: "drop_reference_to_path h1 p = Some h2"
      and ok2: "heap_ok h2 (add_mset p (mset (map fst q0) + Lk))"
      and f2: "frame h1 h2"
      by blast
    let ?s' = "s\<lparr>mem := h2, visited := ?vs', to_visit := q0, winning_path := p\<rparr>"
    have run: "visit_node fails (s\<lparr>to_visit := q0\<rparr>) (p, g0) = Some ?s'"
      using wv out inc dr by (simp add: visit_node_def free_queue_node_def)
    show ?thesis
    proof (cases p)
      case None
      have "queue_ok h1 q0"
        unfolding queue_ok_def
      proof (intro ballI conjI allI impI)
        fix node assume "node \<in> set q0"
        with qk0 show "snd node < 512" by (simp add: queue_ok_def)
      next
        fix node b n1 assume nd: "node \<in> set q0" "fst node = Some b" "deref h1 b = Some n1"
        from queue_ok_other [OF ok' qk0 nd(1,2)] obtain nb where
          "p \<noteq> Some b" "deref ?h b = Some nb" "references nb = 1" by blast
        with old nd(3) show "references n1 = 1" by auto
      qed
      with f2 have qk2: "queue_ok h2 q0" by (rule queue_ok_frame)
      from ok2 None have ok2': "heap_ok h2 (mset (map fst q0) + Lk)" by (simp add: heap_ok_None)
      have "\<exists>mss. list_all2 (entry_of h2 initial) q0 mss
            \<and> levels initial ?vs' (depths mss q0)" if nf: "\<forall>k. \<not> fails k"
      proof -
        from l2 [OF nf] obtain mss0 ms0 where
          l0: "length mss0 = length q0" and p0: "path_is ?h p ms0"
          and lv': "levels initial ?vs (depths mss0 q0 @ [(length ms0, g0)])"
          by blast
        from p0 None have "ms0 = []" by (simp add: path_is_None)
        with lv' have "depths mss0 q0 = []" by (auto dest: levels_first_level)
        with l0 have "q0 = []" by (simp add: depths_Nil)
        then show ?thesis by (simp add: depths_def levels_def)
      qed
      with ok2' qk2 len None have "search_inv fails initial ?s'"
        by (auto simp add: search_inv_def)
      moreover have "unvisited ?s' < unvisited s
          \<or> (unvisited ?s' = unvisited s \<and> stale ?s' < stale s)"
        by (intro meas [of ?s' "[]"]) simp_all
      ultimately show ?thesis using run None by auto
    next
      case (Some a)
      have "\<exists>ms. path_is h2 (Some a) ms \<and> reaches initial ms winning_grid
                \<and> (\<forall>ms'. reaches initial ms' winning_grid \<longrightarrow> length ms \<le> length ms')"
        if nf: "\<forall>k. \<not> fails k"
      proof -
        from l2 [OF nf] obtain mss0 ms0 where
          p0: "path_is ?h p ms0" and r0: "reaches initial ms0 g0"
          and lv': "levels initial ?vs (depths mss0 q0 @ [(length ms0, g0)])"
          by blast
        from heap_ok_mono_valid [OF ok2, of p]
        have valid: "\<forall>a. p = Some a \<longrightarrow> deref h2 a \<noteq> None" by simp
        from ok2 have c2: "counted h2 (add_mset p (mset (map fst q0) + Lk))"
          and z2: "no_zombie h2"
          by (simp_all add: heap_ok_def)
        from path_is_keeps [OF k1 p0] have "path_is h1 p ms0" .
        from path_is_frame [OF f2 c2 z2 this valid] have p2: "path_is h2 p ms0" .
        have "\<forall>ms'. reaches initial ms' winning_grid \<longrightarrow> length ms0 \<le> length ms'"
          using levels_minimal [OF lv'] by blast
        with p2 r0 True Some show ?thesis by blast
      qed
      moreover have "\<exists>Lk. heap_ok h2 (add_mset p (mset (map fst q0) + Lk))"
        using ok2 by blast
      ultimately have "search_post fails initial ?s'"
        using Some by (simp add: search_post_def)
      with run Some show ?thesis by auto
    qed
  next
    case False
    have "\<exists>h1 C Lk' n'. (case outcome g0 of
              Won \<Rightarrow> None
            | Continue \<Rightarrow> for_cells fails 1 ?vs' (p, g0) (?h, q0, allocs s)
            | Lost \<Rightarrow> Some (?h, q0, allocs s)) = Some (h1, C @ q0, n')
        \<and> heap_ok h1 (add_mset p (mset (map fst (C @ q0)) + Lk'))
        \<and> keeps ?h h1
        \<and> queue_ok h1 (C @ q0)
        \<and> (\<forall>e\<in>set C. \<not> seen ?vs' (snd e))"
    proof (cases "outcome g0 = Continue")
      case True
      have len': "length ?vs' = 512" using len by simp
      have b: "\<forall>a n. p = Some a \<longrightarrow> deref ?h a = Some n \<longrightarrow> references n \<le> 1"
        using one by auto
      from for_cells_ok [OF g0 len' ok' qk0 b, of fails "allocs s"] True
      show ?thesis by simp
    next
      case nc: False
      with False have "outcome g0 = Lost" using outcome_cases by auto
      with ok' qk0 show ?thesis
        by (intro exI [of _ ?h] exI [of _ "[]"] exI [of _ Lk] exI [of _ "allocs s"])
          (simp add: keeps_refl)
    qed
    then obtain h1 C Lk' n' where
      ex: "(case outcome g0 of Won \<Rightarrow> None
            | Continue \<Rightarrow> for_cells fails 1 ?vs' (p, g0) (?h, q0, allocs s)
            | Lost \<Rightarrow> Some (?h, q0, allocs s)) = Some (h1, C @ q0, n')"
      and ok1: "heap_ok h1 (add_mset p (mset (map fst (C @ q0)) + Lk'))"
      and k1: "keeps ?h h1"
      and qk1: "queue_ok h1 (C @ q0)"
      and unseen: "\<forall>e\<in>set C. \<not> seen ?vs' (snd e)"
      by blast
    from drop_ok [OF ok1] obtain h2 where
      dr: "drop_reference_to_path h1 p = Some h2"
      and ok2: "heap_ok h2 (mset (map fst (C @ q0)) + Lk')"
      and f2: "frame h1 h2"
      by blast
    from f2 qk1 have qk2: "queue_ok h2 (C @ q0)" by (rule queue_ok_frame)
    let ?s' = "s\<lparr>mem := h2, visited := ?vs', to_visit := C @ q0, allocs := n'\<rparr>"
    have run: "visit_node fails (s\<lparr>to_visit := q0\<rparr>) (p, g0) = Some ?s'"
      using wv ex dr False
      by (cases "outcome g0") (auto simp add: visit_node_def free_queue_node_def outcome_Won)
    have "\<exists>mss. list_all2 (entry_of h2 initial) (C @ q0) mss
            \<and> levels initial ?vs' (depths mss (C @ q0))" if nf: "\<forall>k. \<not> fails k"
    proof -
      from l2 [OF nf] obtain mss0 ms0 where
        ents0: "list_all2 (entry_of ?h initial) q0 mss0" and l0: "length mss0 = length q0"
        and p0: "path_is ?h p ms0" and r0: "reaches initial ms0 g0"
        and lv': "levels initial ?vs (depths mss0 q0 @ [(length ms0, g0)])"
        by blast
      have "\<exists>Cm. list_all2 (entry_of h1 initial) C Cm
          \<and> (\<forall>ms'\<in>set Cm. length ms' = Suc (length ms0))
          \<and> (\<forall>c. outcome g0 = Continue \<longrightarrow> is_star g0 c \<longrightarrow>
                seen ?vs' (explode g0 c) \<or> explode g0 c \<in> snd ` set C)"
      proof (cases "outcome g0 = Continue")
        case True
        have len': "length ?vs' = 512" using len by simp
        have b: "\<forall>a n. p = Some a \<longrightarrow> deref ?h a = Some n \<longrightarrow> references n \<le> 1"
          using one by auto
        from for_cells_children [OF g0 r0 True nf len' ok' qk0 b p0, of "allocs s"]
        obtain h1' C' Cm n'' where
          fc: "for_cells fails 1 ?vs' (p, g0) (?h, q0, allocs s) = Some (h1', C' @ q0, n'')"
          and e: "list_all2 (entry_of h1' initial) C' Cm"
          and dp: "\<forall>ms'\<in>set Cm. length ms' = Suc (length ms0)"
          and ch: "snd ` set C'
             = {explode g0 c |c. 1 \<le> c \<and> is_star g0 c \<and> \<not> seen ?vs' (explode g0 c)}"
          by blast
        from fc ex True have same: "h1' = h1" "C' = C" by simp_all
        from ch have "\<forall>c. is_star g0 c \<longrightarrow>
            seen ?vs' (explode g0 c) \<or> explode g0 c \<in> snd ` set C'"
          by (auto dest: is_star_range)
        with e dp same show ?thesis by blast
      next
        case nc: False
        with False have "outcome g0 = Lost" using outcome_cases by auto
        with ex have "C = []" by simp
        with nc show ?thesis by simp
      qed
      then obtain Cm where
        entsC: "list_all2 (entry_of h1 initial) C Cm"
        and depC: "\<forall>ms'\<in>set Cm. length ms' = Suc (length ms0)"
        and ch: "\<forall>c. outcome g0 = Continue \<longrightarrow> is_star g0 c \<longrightarrow>
              seen ?vs' (explode g0 c) \<or> explode g0 c \<in> snd ` set C"
        by blast
      from entsC have lC: "length Cm = length C" by (simp add: list_all2_lengthD)
      have "list_all2 (entry_of h1 initial) (C @ q0) (Cm @ mss0)"
        using entsC entries_keeps [OF k1 ents0] by (rule list_all2_appendI)
      from entries_frame [OF f2 ok2 this]
      have ents2: "list_all2 (entry_of h2 initial) (C @ q0) (Cm @ mss0)" .
      have "\<forall>e\<in>set (depths Cm C). fst e = Suc (length ms0)"
      proof
        fix e assume "e \<in> set (depths Cm C)"
        then have "fst e \<in> set (map fst (depths Cm C))" by simp
        then show "fst e = Suc (length ms0)" using depC lC by (auto simp add: depths_fst)
      qed
      moreover have "snd ` set (depths Cm C) = snd ` set C"
        using depths_snd [OF lC] by (metis set_map)
      ultimately have "levels initial ?vs' (depths Cm C @ depths mss0 q0)"
        using levels_step [OF lv' idx False, of "depths Cm C"] ch by simp
      then have "levels initial ?vs' (depths (Cm @ mss0) (C @ q0))"
        using lC l0 by (simp add: depths_append)
      with ents2 show ?thesis by blast
    qed
    moreover have "\<exists>Lk. heap_ok h2 (mset (map fst (C @ q0)) + Lk)" using ok2 by blast
    ultimately have "search_inv fails initial ?s'"
      using len wp qk2 by (simp add: search_inv_def)
    moreover have "unvisited ?s' < unvisited s \<or> (unvisited ?s' = unvisited s \<and> stale ?s' < stale s)"
      using unseen by (intro meas [of ?s' C]) simp_all
    ultimately show ?thesis using run wp by auto
  qed
qed

lemma wf_search_measure:
  "wf (inv_image (less_than <*lex*> less_than) (\<lambda>s. (unvisited s, stale s)))"
  by (intro wf_inv_image wf_lex_prod wf_less_than)

text \<open>The loop ends, whichever allocations fail.\<close>

lemma search_loop_ok:
  "search_inv fails initial s \<Longrightarrow> \<exists>s'. search_loop fails s = Some s' \<and> search_post fails initial s'"
proof (induction s rule: wf_induct_rule [OF wf_search_measure])
  case (1 s)
  show ?case
  proof (cases "to_visit s")
    case Nil
    then have "search_loop fails s = Some s"
      by (subst search_loop.simps) (simp add: pop_back_def)
    moreover from "1.prems" Nil have "search_post fails initial s"
      by (simp add: search_inv_def search_post_def heap_ok_None)
    ultimately show ?thesis by blast
  next
    case (Cons x xs)
    then have "to_visit s \<noteq> []" by simp
    then obtain q0 node where "to_visit s = q0 @ [node]"
      by (cases "to_visit s" rule: rev_cases) auto
    then obtain p g0 where q: "to_visit s = q0 @ [(p, g0)]"
      by (cases node) auto
    then have pop: "pop_back (to_visit s) = Some ((p, g0), q0)"
      by (simp add: pop_back_def)
    from visit_node_step [OF "1.prems" q] obtain s1 where
      vn: "visit_node fails (s\<lparr>to_visit := q0\<rparr>) (p, g0) = Some s1"
      and nxt: "if winning_path s1 \<noteq> None then search_post fails initial s1
           else search_inv fails initial s1
              \<and> (unvisited s1 < unvisited s \<or> (unvisited s1 = unvisited s \<and> stale s1 < stale s))"
      by blast
    show ?thesis
    proof (cases "winning_path s1 \<noteq> None")
      case True
      with pop vn have "search_loop fails s = Some s1"
        by (subst search_loop.simps) simp
      with nxt True show ?thesis by auto
    next
      case False
      with nxt have i1: "search_inv fails initial s1"
        and "unvisited s1 < unvisited s \<or> (unvisited s1 = unvisited s \<and> stale s1 < stale s)"
        by simp_all
      then have "(s1, s) \<in> inv_image (less_than <*lex*> less_than) (\<lambda>s. (unvisited s, stale s))"
        by auto
      from "1.IH" [OF this i1] obtain s' where
        "search_loop fails s1 = Some s'" "search_post fails initial s'" by blast
      moreover from pop vn False have "search_loop fails s = search_loop fails s1"
        by (subst search_loop.simps) simp
      ultimately show ?thesis by auto
    qed
  qed
qed

lemma free_queue_ok:
  "heap_ok h (R + mset (map fst q)) \<Longrightarrow>
   \<exists>h'. free_queue h q = Some h' \<and> heap_ok h' R
      \<and> (\<forall>p ms. p \<in># R \<longrightarrow> path_is h p ms \<longrightarrow> path_is h' p ms)"
proof (induction q arbitrary: h rule: rev_induct)
  case Nil
  then show ?case by (subst free_queue.simps) (simp add: pop_back_def)
next
  case (snoc x q)
  from snoc.prems have "heap_ok h (add_mset (fst x) (R + mset (map fst q)))" by simp
  from drop_ok [OF this] obtain h1 where
    dr: "drop_reference_to_path h (fst x) = Some h1"
    and ok1: "heap_ok h1 (R + mset (map fst q))" and f1: "frame h h1"
    by blast
  from snoc.IH [OF ok1] obtain h' where
    fq: "free_queue h1 q = Some h'" and ok': "heap_ok h' R"
    and keep: "\<forall>p ms. p \<in># R \<longrightarrow> path_is h1 p ms \<longrightarrow> path_is h' p ms"
    by blast
  have "free_queue h (q @ [x]) = Some h'"
    using dr fq by (subst free_queue.simps) (simp add: pop_back_def free_queue_node_def)
  moreover have "\<forall>p ms. p \<in># R \<longrightarrow> path_is h p ms \<longrightarrow> path_is h' p ms"
  proof (intro allI impI)
    fix p ms assume p: "p \<in># R" "path_is h p ms"
    from ok1 have c1: "counted h1 (R + mset (map fst q))" and z1: "no_zombie h1"
      by (simp_all add: heap_ok_def)
    from p(1) have "p \<in># R + mset (map fst q)" by simp
    from heap_ok_mono_valid [OF ok1 this] path_is_frame [OF f1 c1 z1 p(2)]
    have "path_is h1 p ms" by simp
    with keep p(1) show "path_is h' p ms" by blast
  qed
  ultimately show ?case using ok' by blast
qed

lemma search_inv_initial:
  "initial < 512 \<Longrightarrow> search_inv fails initial (initial_state fails initial)"
proof -
  assume i: "initial < 512"
  have "list_all2 (entry_of [] initial) [(None, initial)] [[]]"
    using i by (simp add: entry_of_def)
  moreover have "levels initial (replicate 512 False) (depths [[]] [(None, initial)])"
    using levels_initial [of initial] by (simp add: depths_def)
  moreover have "heap_ok [] (mset (map fst (push_front (fails 2) [] new_path initial)) + {#})"
    by (simp add: push_front_def new_path_def heap_ok_None heap_ok_empty)
  ultimately show ?thesis
    unfolding search_inv_def using i
    by (auto simp add: initial_state_def push_front_def new_path_def queue_ok_def)
qed

text \<open>
  \<^verbatim>\<open>shortest_winning_path\<close> returns, whichever allocations fail. When none fails and it
  returns a path, the path leads to the winning grid and no path that does is shorter.
\<close>

lemma shortest_winning_path_ok:
  assumes "initial < 512"
  shows "\<exists>p h. shortest_winning_path fails initial = Some (p, h)
     \<and> ((\<forall>k. \<not> fails k) \<longrightarrow> (\<forall>a. p = Some a \<longrightarrow>
          (\<exists>ms. path_is h p ms \<and> reaches initial ms winning_grid
              \<and> (\<forall>ms'. reaches initial ms' winning_grid \<longrightarrow> length ms \<le> length ms'))))"
proof (cases "fails 0 \<or> fails 1")
  case True
  then have "shortest_winning_path fails initial = Some (None, [])"
    by (auto simp add: shortest_winning_path_def calloc_def new_queue_def)
  then show ?thesis by simp
next
  case False
  from search_loop_ok [OF search_inv_initial [OF assms]] obtain s where
    sl: "search_loop fails (initial_state fails initial) = Some s"
    and post: "search_post fails initial s"
    by blast
  let ?p = "winning_path s"
  from post obtain Lk where "heap_ok (mem s) (add_mset ?p Lk + mset (map fst (to_visit s)))"
    by (auto simp add: search_post_def ac_simps)
  from free_queue_ok [OF this] obtain h where
    fq: "free_queue (mem s) (to_visit s) = Some h"
    and keep: "\<forall>ms. path_is (mem s) ?p ms \<longrightarrow> path_is h ?p ms"
    by auto
  have "shortest_winning_path fails initial = Some (?p, h)"
    using False sl fq by (simp add: shortest_winning_path_def calloc_def new_queue_def)
  moreover have "\<forall>a. ?p = Some a \<longrightarrow>
          (\<exists>ms. path_is h ?p ms \<and> reaches initial ms winning_grid
              \<and> (\<forall>ms'. reaches initial ms' winning_grid \<longrightarrow> length ms \<le> length ms'))"
    if "\<forall>k. \<not> fails k"
    using post keep that unfolding search_post_def by metis
  ultimately show ?thesis by blast
qed

lemma replay_append: "replay g (xs @ ys) = replay (replay g xs) ys"
  by (induction xs arbitrary: g) simp_all

lemma reaches_replay: "reaches initial ms g \<Longrightarrow> replay initial (rev ms) = g"
  by (induction ms arbitrary: g) (auto simp add: replay_append)

lemma reaches_prefix:
  "reaches initial ms g \<Longrightarrow> k < length ms \<Longrightarrow> replay initial (take k (rev ms)) \<noteq> winning_grid"
proof (induction ms arbitrary: g k)
  case Nil
  then show ?case by simp
next
  case (Cons m ms)
  from Cons.prems(1) obtain g' where g': "reaches initial ms g'" "outcome g' = Continue"
    by auto
  show ?case
  proof (cases "k < length ms")
    case True
    from Cons.IH [OF g'(1) True] True show ?thesis by simp
  next
    case False
    with Cons.prems(2) have "k = length ms" by simp
    then have "replay initial (take k (rev (m # ms))) = g'"
      using reaches_replay [OF g'(1)] by simp
    with g'(2) show ?thesis by (auto simp add: outcome_Won [symmetric])
  qed
qed

lemma star_not_empty: "is_star g m \<Longrightarrow> g \<noteq> empty_grid"
  by (auto simp add: is_star_bit empty_grid_def)

text \<open>Moves that explode no star change nothing, so they can be left out.\<close>

lemma replay_reaches:
  "replay initial ms' = g \<Longrightarrow>
   \<exists>ms. length ms \<le> length ms' \<and> (reaches initial ms g \<or> reaches initial ms winning_grid)"
proof (induction ms' arbitrary: g rule: rev_induct)
  case Nil
  then have "reaches initial [] g" by simp
  then show ?case by (intro exI [of _ "[]"]) simp
next
  case (snoc m xs)
  let ?g1 = "replay initial xs"
  from snoc.prems have g: "g = explode ?g1 m" by (simp add: replay_append)
  from snoc.IH [OF refl] obtain ms where
    ms: "length ms \<le> length xs" "reaches initial ms ?g1 \<or> reaches initial ms winning_grid"
    by blast
  show ?case
  proof (cases "reaches initial ms winning_grid \<or> ?g1 = winning_grid")
    case True
    with ms have "reaches initial ms winning_grid" by auto
    with ms(1) show ?thesis by (intro exI [of _ ms]) simp
  next
    case False
    with ms have r: "reaches initial ms ?g1" and nw: "?g1 \<noteq> winning_grid" by auto
    show ?thesis
    proof (cases "is_star ?g1 m")
      case True
      with nw have "outcome ?g1 = Continue"
        using star_not_empty [OF True] by (simp add: outcome_def)
      with r True g have "reaches initial (m # ms) g" by auto
      with ms(1) show ?thesis by (intro exI [of _ "m # ms"]) simp
    next
      case False
      with g have "g = ?g1" by (simp add: explode_not_star)
      with r ms(1) show ?thesis by (intro exI [of _ ms]) simp
    qed
  qed
qed

text \<open>
  When no allocation fails, a path that \<^verbatim>\<open>shortest_winning_path\<close> returns is intact in the
  heap that is left, its moves in play order (as \<^verbatim>\<open>print_path_loop\<close> prints them), replayed
  as successive calls of \<open>explode\<close> from the initial grid, give the winning grid, no grid
  reached before the last move is the winning grid, and no sequence of moves that gives the
  winning grid is shorter.
\<close>

lemma no_failure_shortest:
  assumes "\<forall>k. \<not> fails k" "initial < 512"
    and "shortest_winning_path fails initial = Some (Some a, h)"
  shows "\<exists>ms. print_path_loop h (Some a) = Some ms
     \<and> replay initial ms = winning_grid
     \<and> (\<forall>k<length ms. replay initial (take k ms) \<noteq> winning_grid)
     \<and> (\<forall>ms'. replay initial ms' = winning_grid \<longrightarrow> length ms \<le> length ms')"
proof -
  from shortest_winning_path_ok [OF assms(2), of fails] assms(1,3) obtain ms where
    p: "path_is h (Some a) ms" and r: "reaches initial ms winning_grid"
    and least: "\<forall>ms'. reaches initial ms' winning_grid \<longrightarrow> length ms \<le> length ms'"
    by auto
  have "print_path_loop h (Some a) = Some (rev ms)" using p by (rule print_path_loop_path_is)
  moreover have "replay initial (rev ms) = winning_grid" using r by (rule reaches_replay)
  moreover have "\<forall>k<length (rev ms). replay initial (take k (rev ms)) \<noteq> winning_grid"
    using reaches_prefix [OF r] by simp
  moreover have "\<forall>ms'. replay initial ms' = winning_grid \<longrightarrow> length (rev ms) \<le> length ms'"
  proof (intro allI impI)
    fix ms' assume "replay initial ms' = winning_grid"
    from replay_reaches [OF this] obtain ms1 where
      "length ms1 \<le> length ms'" "reaches initial ms1 winning_grid" by auto
    with least show "length (rev ms) \<le> length ms'" by force
  qed
  ultimately show ?thesis by blast
qed

text \<open>A pass of the loop pushes only grids whose slot in the table is not set: once a grid is
  marked as visited it is never pushed again.\<close>

lemma visit_cell_pushes:
  "visit_cell fails vs node (h, q, n) i = Some (h', q', n') \<Longrightarrow>
   \<exists>C. q' = C @ q \<and> (\<forall>e\<in>set C. \<not> seen vs (snd e))"
  by (auto simp add: visit_cell_def push_front_def read_visited_def seen_def
      split: if_splits option.splits)

lemma for_cells_pushes:
  "for_cells fails i vs node (h, q, n) = Some (h', q', n') \<Longrightarrow>
   \<exists>C. q' = C @ q \<and> (\<forall>e\<in>set C. \<not> seen vs (snd e))"
proof (induction fails i vs node "(h, q, n)" arbitrary: h q n rule: for_cells.induct)
  case (1 fails i vs node h q n)
  show ?case
  proof (cases "i \<le> 9")
    case False
    then have "for_cells fails i vs node (h, q, n) = Some (h, q, n)"
      by (subst for_cells.simps) simp
    with "1.prems" show ?thesis by simp
  next
    case True
    then have "for_cells fails i vs node (h, q, n) =
        (case visit_cell fails vs node (h, q, n) i of
           None \<Rightarrow> None
         | Some hqn' \<Rightarrow> for_cells fails (i + 1) vs node hqn')"
      by (subst for_cells.simps) simp
    with "1.prems" obtain hq1 where
      "visit_cell fails vs node (h, q, n) i = Some hq1"
      "for_cells fails (i + 1) vs node hq1 = Some (h', q', n')"
      by (auto split: option.splits)
    then obtain h1 q1 n1 where
      vc: "visit_cell fails vs node (h, q, n) i = Some (h1, q1, n1)"
      and fc: "for_cells fails (i + 1) vs node (h1, q1, n1) = Some (h', q', n')"
      by (cases hq1) auto
    from visit_cell_pushes [OF vc] obtain C1 where
      c1: "q1 = C1 @ q" "\<forall>e\<in>set C1. \<not> seen vs (snd e)" by blast
    from "1.hyps" [OF True vc fc] obtain C2 where
      c2: "q' = C2 @ q1" "\<forall>e\<in>set C2. \<not> seen vs (snd e)" by blast
    from c1 c2 have "q' = (C2 @ C1) @ q \<and> (\<forall>e\<in>set (C2 @ C1). \<not> seen vs (snd e))" by auto
    then show ?thesis by blast
  qed
qed

lemma visit_node_pushes:
  assumes "visit_node fails s node = Some s'"
  shows "\<exists>C. to_visit s' = C @ to_visit s \<and> (\<forall>e\<in>set C. \<not> seen (visited s') (snd e))"
proof -
  from assms obtain vs where wv: "write_visited (visited s) (snd node) = Some vs"
    by (auto simp add: visit_node_def split: Option.bind_splits)
  show ?thesis
  proof (cases "outcome (snd node)")
    case Continue
    with assms wv obtain h1 q1 n1 where
      fc: "for_cells fails 1 vs node (mem s, to_visit s, allocs s) = Some (h1, q1, n1)"
      and s': "to_visit s' = q1" "visited s' = vs"
      by (auto simp add: visit_node_def split: Option.bind_splits)
    from for_cells_pushes [OF fc] s' show ?thesis by simp
  next
    case Won
    with assms wv have "to_visit s' = to_visit s"
      by (auto simp add: visit_node_def split: Option.bind_splits)
    then show ?thesis by simp
  next
    case Lost
    with assms wv have "to_visit s' = to_visit s"
      by (auto simp add: visit_node_def split: Option.bind_splits)
    then show ?thesis by simp
  qed
qed

subsection \<open>C6: the search terminates\<close>

text \<open>
  C6: for every initial grid below 512, and whichever calls of the allocator fail, the search
  loop ends after finitely many passes and \<open>shortest_winning_path\<close> returns, a path or
  \<^verbatim>\<open>NULL\<close>, without reading or writing memory that is not allocated and without overflow
  of a count.
\<close>

theorem shortest_winning_path_terminates:
  "initial < 512 \<Longrightarrow> \<exists>p h. shortest_winning_path fails initial = Some (p, h)"
  using shortest_winning_path_ok [of initial fails] by blast

theorem shortest_winning_path_terminates_witness:
  "(341::Grid) < 512 \<and> (\<exists>p h. shortest_winning_path no_failure 341 = Some (p, h))"
  using shortest_winning_path_terminates [of 341 no_failure] by simp

subsection \<open>C1: the path returned after a failed allocation\<close>

text \<open>
  C1 says that a path returned by \<open>shortest_winning_path\<close>, replayed from the initial grid,
  gives the winning grid. This is so when no allocation fails (\<open>no_failure_shortest\<close>). But
  \<^verbatim>\<open>add_move_to_path\<close> returns \<^verbatim>\<open>NULL\<close> when its \<^verbatim>\<open>malloc\<close> fails, and the loop pushes this
  \<^verbatim>\<open>NULL\<close> to the queue as the path of the new grid, where it stands for the empty path: the
  moves made so far are forgotten. From the grid with stars in cells 2, 5, 7 and 9, when the
  allocation of the first path (the fourth call of the allocator) fails, the function returns
  the path with the single move 5, which leads to the grid 47 and not to the winning grid;
  the moves 2 and 5 do.
\<close>

theorem failed_allocation_wrong_path:
  "shortest_winning_path (fails_at 3) 149
     = Some (Some 5, replicate 5 None @ [Some \<lparr>references = 1, move = 5, rest = None\<rparr>]
                       @ replicate 25 None)
   \<and> print_path_loop (replicate 5 None @ [Some \<lparr>references = 1, move = 5, rest = None\<rparr>]
                       @ replicate 25 None) (Some 5) = Some [5]
   \<and> replay 149 [5] = 47
   \<and> replay 149 [5] \<noteq> winning_grid
   \<and> replay 149 [2, 5] = winning_grid
   \<and> stars 149 = [2, 5, 7, 9]"
  by code_simp

subsection \<open>C2: an initial grid that is already won\<close>

text \<open>
  C2 says that for the winning grid as initial grid the result is a path, not none, with no
  moves. The empty path is \<^verbatim>\<open>NULL\<close>, and \<^verbatim>\<open>NULL\<close> is also what the function returns when there
  is no winning path: on the winning grid the loop stores the empty path in \<^verbatim>\<open>winning_path\<close>,
  finds it \<^verbatim>\<open>NULL\<close>, does not leave the loop, and returns \<^verbatim>\<open>NULL\<close> once the queue is empty.
  No path is allocated on the way, so the result is the same whichever allocations fail.
\<close>

theorem already_won_returns_NULL:
  "shortest_winning_path fails winning_grid = Some (None, [])"
proof (cases "fails 0 \<or> fails 1")
  case True
  then show ?thesis by (auto simp add: shortest_winning_path_def calloc_def new_queue_def)
next
  case False
  have w: "write_visited (replicate 512 False) winning_grid
      = Some ((replicate 512 False)[unat winning_grid := True])"
    by (simp add: write_visited_def winning_grid_def)
  have o: "outcome winning_grid = Won" by (simp add: outcome_Won)
  have "search_loop fails (initial_state fails winning_grid)
      = Some ((initial_state fails winning_grid)\<lparr>to_visit := [],
          visited := (if fails 2 then replicate 512 False
             else (replicate 512 False)[unat winning_grid := True])\<rparr>)"
    apply (subst search_loop.simps)
    apply (cases "fails 2")
     apply (simp add: initial_state_def push_front_def pop_back_def)
    apply (simp add: initial_state_def push_front_def pop_back_def new_path_def visit_node_def
        w o inc_reference_to_path_def free_queue_node_def)
    apply (subst search_loop.simps)
    apply (simp add: pop_back_def)
    done
  with False show ?thesis
    apply (simp add: shortest_winning_path_def calloc_def new_queue_def initial_state_def)
    apply (subst free_queue.simps)
    apply (simp add: pop_back_def)
    done
qed

subsection \<open>C5: visiting a grid more than once\<close>

text \<open>
  C5 says that a grid is taken from the queue and processed at most once. A grid is marked
  when it is taken from the queue, not when it is pushed, so it can be pushed several times
  before it is first taken out, and each of these nodes is processed. From the grid with
  stars in cells 2 and 8 only, with no allocation failing, the sixth and the seventh pass of
  the loop both process the grid with stars in cells 1, 3, 7 and 9.
\<close>

theorem grid_dequeued_twice:
  "dequeued no_failure 7 (initial_state no_failure 0b010000010)
     = [130, 322, 133, 242, 410, 325, 325]
   \<and> \<not> distinct (dequeued no_failure 7 (initial_state no_failure 0b010000010))
   \<and> stars 325 = [1, 3, 7, 9]"
  by code_simp

end
